theory Spec2Isabelle
  imports Main
begin

section \<open>Strings, arrays and objects of the source language\<close>

text \<open>
  The program is JavaScript (\<^verbatim>\<open>src/src/App.jsx\<close>). A JavaScript string is a sequence of
  UTF-16 code units; a code unit is represented here by its numeric value, so that the
  Unicode arrow U+2192 is the single unit 8594, as \<^verbatim>\<open>indexOf\<close> and \<^verbatim>\<open>slice\<close> count it.
  \<open>js\<close> turns an ASCII literal into such a string.
\<close>

type_synonym jsstring = "nat list"

definition js :: "string \<Rightarrow> jsstring" where
  "js s = map of_char s"

text \<open>
  The only exception the modelled functions can raise is a \<^verbatim>\<open>TypeError\<close>: reading a
  property of \<^verbatim>\<open>undefined\<close> (an array read out of range followed by a member access), or
  calling a member that is not a function.
\<close>

datatype error = TypeError

fun foldE :: "('a \<Rightarrow> 's \<Rightarrow> error + 's) \<Rightarrow> 'a list \<Rightarrow> 's \<Rightarrow> error + 's" where
  "foldE f [] s = Inr s"
| "foldE f (x # xs) s = (case f x s of Inl e \<Rightarrow> Inl e | Inr s' \<Rightarrow> foldE f xs s')"

text \<open>
  \<open>at2 t i j\<close> is the read \<^verbatim>\<open>t[i][j]\<close> of a two-dimensional array whose result is then
  used as an object: out of range the read yields \<^verbatim>\<open>undefined\<close> and the member access
  on it throws. \<open>upd2\<close> is the in-place mutation of the object stored in that cell.
\<close>

definition at2 :: "'a list list \<Rightarrow> nat \<Rightarrow> nat \<Rightarrow> error + 'a" where
  "at2 t i j =
     (if i < length t then (if j < length (t ! i) then Inr (t ! i ! j) else Inl TypeError)
      else Inl TypeError)"

definition upd2 :: "'a list list \<Rightarrow> nat \<Rightarrow> nat \<Rightarrow> 'a \<Rightarrow> 'a list list" where
  "upd2 t i j v = t[i := (t ! i)[j := v]]"

subsection \<open>Own keys of an object\<close>

text \<open>
  \<^verbatim>\<open>grammar.rules\<close> is a plain object. It is modelled as an association list holding the
  own properties in insertion order (keys distinct). \<^verbatim>\<open>Object.keys\<close> enumerates the keys
  that are array indices (canonical decimal numerals below \<open>2^32 - 1\<close>) first, in ascending
  numeric order, and then all other keys in insertion order.
\<close>

definition is_digit :: "nat \<Rightarrow> bool" where
  "is_digit c = (48 \<le> c \<and> c \<le> 57)"

definition digits_val :: "jsstring \<Rightarrow> nat" where
  "digits_val s = foldl (\<lambda>a c. 10 * a + (c - 48)) 0 s"

definition array_index :: "jsstring \<Rightarrow> nat option" where
  "array_index s =
     (if s \<noteq> [] \<and> list_all is_digit s \<and> (hd s \<noteq> 48 \<or> length s = 1)
         \<and> digits_val s < 4294967295
      then Some (digits_val s) else None)"

definition object_keys :: "(jsstring \<times> 'v) list \<Rightarrow> jsstring list" where
  "object_keys obj =
     (let ks = map fst obj in
      sort_key (\<lambda>k. case array_index k of Some v \<Rightarrow> v | None \<Rightarrow> 0)
        (filter (\<lambda>k. array_index k \<noteq> None) ks)
      @ filter (\<lambda>k. array_index k = None) ks)"

text \<open>
  \<open>obj_get obj k\<close> is the read \<^verbatim>\<open>obj[k]\<close> for an own key \<open>k\<close>, as in
  \<^verbatim>\<open>grammar.rules[A]\<close> with \<open>A\<close> taken from \<^verbatim>\<open>Object.keys(grammar.rules)\<close>; the
  productions of a name that is no own key are the empty list.
\<close>

definition obj_get :: "(jsstring \<times> 'v list) list \<Rightarrow> jsstring \<Rightarrow> 'v list" where
  "obj_get obj k = (case map_of obj k of Some v \<Rightarrow> v | None \<Rightarrow> [])"

section \<open>The grammar and the recognizers\<close>

type_synonym symbol = jsstring
type_synonym production = "symbol list"

record grammar =
  variables :: "symbol list"
  terminals :: "symbol list"
  startSymbol :: symbol
  rules :: "(symbol \<times> production list) list"

text \<open>
  A table cell is a \<^verbatim>\<open>Set\<close> of variables; a backpointer cell is a \<^verbatim>\<open>Map\<close> from a variable
  to the array of its derivation records, \<^verbatim>\<open>{ type: 'terminal', token }\<close> or
  \<^verbatim>\<open>{ type: 'binary', left, right, split }\<close>. Each cell is created by its own call of
  \<^verbatim>\<open>new Set()\<close> or \<^verbatim>\<open>new Map()\<close>, so no two cells share an object.
\<close>

datatype backptr =
    Terminal symbol
  | Binary symbol symbol nat

type_synonym cell = "symbol set"
type_synonym bcell = "symbol \<rightharpoonup> backptr list"
type_synonym table = "cell list list"
type_synonym backtable = "bcell list list"

text \<open>The result object \<^verbatim>\<open>{ accepted, table, back }\<close>; the field \<^verbatim>\<open>back\<close> is named
  \<open>backptrs\<close> here.\<close>

record cyk_result =
  accepted :: bool
  table :: table
  backptrs :: backtable

text \<open>
  \<^verbatim>\<open>if (!m.has(A)) m.set(A, []); m.get(A).push(r)\<close>
\<close>

definition bcell_push :: "bcell \<Rightarrow> symbol \<Rightarrow> backptr \<Rightarrow> bcell" where
  "bcell_push m A r = m(A \<mapsto> (case m A of None \<Rightarrow> [] | Some rs \<Rightarrow> rs) @ [r])"

definition init_table :: "nat \<Rightarrow> table" where
  "init_table n = replicate n (replicate n {})"

definition init_back :: "nat \<Rightarrow> backtable" where
  "init_back n = replicate n (replicate n Map.empty)"

subsection \<open>cykWithPointers\<close>

text \<open>The body of the innermost \<^verbatim>\<open>forEach\<close> of the diagonal loop (source lines 166-172).\<close>

definition diag_prod ::
  "symbol \<Rightarrow> nat \<Rightarrow> symbol \<Rightarrow> production \<Rightarrow> table \<times> backtable \<Rightarrow> error + table \<times> backtable" where
  "diag_prod tok i A pr st =
     (case st of (t, b) \<Rightarrow>
        if length pr = 1 \<and> pr ! 0 = tok then
          (case at2 t i i of Inl e \<Rightarrow> Inl e | Inr c \<Rightarrow>
           (case at2 b i i of Inl e \<Rightarrow> Inl e | Inr m \<Rightarrow>
              Inr (upd2 t i i (insert A c), upd2 b i i (bcell_push m A (Terminal tok)))))
        else Inr (t, b))"

definition diag_var ::
  "grammar \<Rightarrow> symbol \<Rightarrow> nat \<Rightarrow> symbol \<Rightarrow> table \<times> backtable \<Rightarrow> error + table \<times> backtable" where
  "diag_var G tok i A st = foldE (diag_prod tok i A) (obj_get (rules G) A) st"

definition diag_pos ::
  "grammar \<Rightarrow> symbol list \<Rightarrow> nat \<Rightarrow> table \<times> backtable \<Rightarrow> error + table \<times> backtable" where
  "diag_pos G tokens i st = foldE (diag_var G (tokens ! i) i) (object_keys (rules G)) st"

definition diag_loop ::
  "grammar \<Rightarrow> symbol list \<Rightarrow> table \<times> backtable \<Rightarrow> error + table \<times> backtable" where
  "diag_loop G tokens st = foldE (diag_pos G tokens) [0 ..< length tokens] st"

text \<open>The body of the innermost \<^verbatim>\<open>forEach\<close> of the upper triangle (source lines 182-191);
  \<^verbatim>\<open>&&\<close> reads its right operand only when the left one holds.\<close>

definition bin_prod ::
  "nat \<Rightarrow> nat \<Rightarrow> nat \<Rightarrow> symbol \<Rightarrow> production \<Rightarrow> table \<times> backtable \<Rightarrow> error + table \<times> backtable" where
  "bin_prod i j k A pr st =
     (case st of (t, b) \<Rightarrow>
        if length pr = 2 then
          (case at2 t i k of Inl e \<Rightarrow> Inl e | Inr c1 \<Rightarrow>
             if pr ! 0 \<in> c1 then
               (case at2 t (k + 1) j of Inl e \<Rightarrow> Inl e | Inr c2 \<Rightarrow>
                  if pr ! 1 \<in> c2 then
                    (case at2 t i j of Inl e \<Rightarrow> Inl e | Inr c \<Rightarrow>
                     (case at2 b i j of Inl e \<Rightarrow> Inl e | Inr m \<Rightarrow>
                        Inr (upd2 t i j (insert A c),
                             upd2 b i j (bcell_push m A (Binary (pr ! 0) (pr ! 1) k)))))
                  else Inr (t, b))
             else Inr (t, b))
        else Inr (t, b))"

definition bin_var ::
  "grammar \<Rightarrow> nat \<Rightarrow> nat \<Rightarrow> nat \<Rightarrow> symbol \<Rightarrow> table \<times> backtable \<Rightarrow> error + table \<times> backtable" where
  "bin_var G i j k A st = foldE (bin_prod i j k A) (obj_get (rules G) A) st"

definition bin_split ::
  "grammar \<Rightarrow> nat \<Rightarrow> nat \<Rightarrow> nat \<Rightarrow> table \<times> backtable \<Rightarrow> error + table \<times> backtable" where
  "bin_split G i j k st = foldE (bin_var G i j k) (object_keys (rules G)) st"

definition bin_cell ::
  "grammar \<Rightarrow> nat \<Rightarrow> nat \<Rightarrow> table \<times> backtable \<Rightarrow> error + table \<times> backtable" where
  "bin_cell G len i st = (let j = i + len - 1 in foldE (bin_split G i j) [i ..< j] st)"

definition bin_len ::
  "grammar \<Rightarrow> nat \<Rightarrow> nat \<Rightarrow> table \<times> backtable \<Rightarrow> error + table \<times> backtable" where
  "bin_len G n len st = foldE (bin_cell G len) [0 ..< n + 1 - len] st"

definition upper_loop ::
  "grammar \<Rightarrow> nat \<Rightarrow> table \<times> backtable \<Rightarrow> error + table \<times> backtable" where
  "upper_loop G n st = foldE (bin_len G n) [2 ..< n + 1] st"

text \<open>The two loops, run on the tables as allocated (source lines 163-195).\<close>

definition cyk_fill ::
  "grammar \<Rightarrow> symbol list \<Rightarrow> table \<times> backtable \<Rightarrow> error + table \<times> backtable" where
  "cyk_fill G tokens st =
     (case diag_loop G tokens st of Inl e \<Rightarrow> Inl e
      | Inr st1 \<Rightarrow> upper_loop G (length tokens) st1)"

text \<open>The last line of both recognizers: \<^verbatim>\<open>table[0][n - 1].has(grammar.startSymbol)\<close>.\<close>

definition has_start :: "grammar \<Rightarrow> nat \<Rightarrow> table \<Rightarrow> error + bool" where
  "has_start G n t =
     (case at2 t 0 (n - 1) of Inl e \<Rightarrow> Inl e | Inr c \<Rightarrow> Inr (startSymbol G \<in> c))"

definition cykWithPointers :: "symbol list \<Rightarrow> grammar \<Rightarrow> error + cyk_result" where
  "cykWithPointers tokens G =
     (let n = length tokens in
      if n = 0 then Inr \<lparr>accepted = False, table = [], backptrs = []\<rparr>
      else
        (case cyk_fill G tokens (init_table n, init_back n) of Inl e \<Rightarrow> Inl e
         | Inr (t, b) \<Rightarrow>
            (case has_start G n t of Inl e \<Rightarrow> Inl e
             | Inr a \<Rightarrow> Inr \<lparr>accepted = a, table = t, backptrs = b\<rparr>)))"

subsection \<open>cykAlgorithm, the recognizer that records a trace\<close>

text \<open>
  The trace is an array of strings built by template literals; \<open>show_nat\<close> is the
  decimal numeral a number is printed as. The function is called with a string by
  \<^verbatim>\<open>handleCheckGrammar\<close>; it only uses \<^verbatim>\<open>word.length\<close> and \<^verbatim>\<open>word[i]\<close>, so a string
  is the array of its one-unit strings here.
\<close>

fun show_nat :: "nat \<Rightarrow> jsstring" where
  "show_nat n = (if n < 10 then [48 + n] else show_nat (n div 10) @ [48 + n mod 10])"

declare show_nat.simps [simp del]

record trace_result =
  accepted :: bool
  table :: table
  steps :: "jsstring list"

text \<open>
  \<^verbatim>\<open>`Cell[${i}][${i}]: '${char}' can be derived from ${variable}`\<close> and
  \<^verbatim>\<open>`Cell[${i}][${j}]: ${variable} (arrow) ${B}${C} (from [${i}][${k}] and [${k + 1}][${j}])`\<close>,
  where 39 is the apostrophe and 8594 the arrow U+2192.
\<close>

definition diag_step :: "nat \<Rightarrow> symbol \<Rightarrow> symbol \<Rightarrow> jsstring" where
  "diag_step i char variable =
     js ''Cell['' @ show_nat i @ js '']['' @ show_nat i @ js '']: '' @ [39] @ char @ [39]
     @ js '' can be derived from '' @ variable"

definition bin_step :: "nat \<Rightarrow> nat \<Rightarrow> nat \<Rightarrow> symbol \<Rightarrow> symbol \<Rightarrow> symbol \<Rightarrow> jsstring" where
  "bin_step i j k variable B C =
     js ''Cell['' @ show_nat i @ js '']['' @ show_nat j @ js '']: '' @ variable @ [32, 8594, 32]
     @ B @ C @ js '' (from ['' @ show_nat i @ js '']['' @ show_nat k @ js ''] and [''
     @ show_nat (k + 1) @ js '']['' @ show_nat j @ js ''])''"

definition trace_diag_prod ::
  "symbol \<Rightarrow> nat \<Rightarrow> symbol \<Rightarrow> production \<Rightarrow> table \<times> jsstring list
     \<Rightarrow> error + table \<times> jsstring list" where
  "trace_diag_prod char i variable production st =
     (case st of (t, ss) \<Rightarrow>
        if length production = 1 \<and> production ! 0 = char then
          (case at2 t i i of Inl e \<Rightarrow> Inl e | Inr c \<Rightarrow>
             Inr (upd2 t i i (insert variable c), ss @ [diag_step i char variable]))
        else Inr (t, ss))"

definition trace_diag_var ::
  "grammar \<Rightarrow> symbol \<Rightarrow> nat \<Rightarrow> symbol \<Rightarrow> table \<times> jsstring list
     \<Rightarrow> error + table \<times> jsstring list" where
  "trace_diag_var G char i variable st =
     foldE (trace_diag_prod char i variable) (obj_get (rules G) variable) st"

definition trace_diag_pos ::
  "grammar \<Rightarrow> symbol list \<Rightarrow> nat \<Rightarrow> table \<times> jsstring list \<Rightarrow> error + table \<times> jsstring list" where
  "trace_diag_pos G word i st =
     foldE (trace_diag_var G (word ! i) i) (object_keys (rules G)) st"

definition trace_diag_loop ::
  "grammar \<Rightarrow> symbol list \<Rightarrow> table \<times> jsstring list \<Rightarrow> error + table \<times> jsstring list" where
  "trace_diag_loop G word st = foldE (trace_diag_pos G word) [0 ..< length word] st"

definition trace_bin_prod ::
  "nat \<Rightarrow> nat \<Rightarrow> nat \<Rightarrow> symbol \<Rightarrow> production \<Rightarrow> table \<times> jsstring list
     \<Rightarrow> error + table \<times> jsstring list" where
  "trace_bin_prod i j k variable production st =
     (case st of (t, ss) \<Rightarrow>
        if length production = 2 then
          (case at2 t i k of Inl e \<Rightarrow> Inl e | Inr c1 \<Rightarrow>
             if production ! 0 \<in> c1 then
               (case at2 t (k + 1) j of Inl e \<Rightarrow> Inl e | Inr c2 \<Rightarrow>
                  if production ! 1 \<in> c2 then
                    (case at2 t i j of Inl e \<Rightarrow> Inl e | Inr c \<Rightarrow>
                       Inr (upd2 t i j (insert variable c),
                            ss @ [bin_step i j k variable (production ! 0) (production ! 1)]))
                  else Inr (t, ss))
             else Inr (t, ss))
        else Inr (t, ss))"

definition trace_bin_var ::
  "grammar \<Rightarrow> nat \<Rightarrow> nat \<Rightarrow> nat \<Rightarrow> symbol \<Rightarrow> table \<times> jsstring list
     \<Rightarrow> error + table \<times> jsstring list" where
  "trace_bin_var G i j k variable st =
     foldE (trace_bin_prod i j k variable) (obj_get (rules G) variable) st"

definition trace_bin_split ::
  "grammar \<Rightarrow> nat \<Rightarrow> nat \<Rightarrow> nat \<Rightarrow> table \<times> jsstring list \<Rightarrow> error + table \<times> jsstring list" where
  "trace_bin_split G i j k st = foldE (trace_bin_var G i j k) (object_keys (rules G)) st"

definition trace_bin_cell ::
  "grammar \<Rightarrow> nat \<Rightarrow> nat \<Rightarrow> table \<times> jsstring list \<Rightarrow> error + table \<times> jsstring list" where
  "trace_bin_cell G len i st =
     (let j = i + len - 1 in foldE (trace_bin_split G i j) [i ..< j] st)"

definition trace_bin_len ::
  "grammar \<Rightarrow> nat \<Rightarrow> nat \<Rightarrow> table \<times> jsstring list \<Rightarrow> error + table \<times> jsstring list" where
  "trace_bin_len G n len st = foldE (trace_bin_cell G len) [0 ..< n + 1 - len] st"

definition trace_upper_loop ::
  "grammar \<Rightarrow> nat \<Rightarrow> table \<times> jsstring list \<Rightarrow> error + table \<times> jsstring list" where
  "trace_upper_loop G n st = foldE (trace_bin_len G n) [2 ..< n + 1] st"

definition trace_fill ::
  "grammar \<Rightarrow> symbol list \<Rightarrow> table \<times> jsstring list \<Rightarrow> error + table \<times> jsstring list" where
  "trace_fill G word st =
     (case trace_diag_loop G word st of Inl e \<Rightarrow> Inl e
      | Inr st1 \<Rightarrow> trace_upper_loop G (length word) st1)"

definition cykAlgorithm :: "symbol list \<Rightarrow> grammar \<Rightarrow> error + trace_result" where
  "cykAlgorithm word G =
     (let n = length word in
      if n = 0 then Inr \<lparr>accepted = False, table = [], steps = []\<rparr>
      else
        (case trace_fill G word (init_table n, []) of Inl e \<Rightarrow> Inl e
         | Inr (t, ss) \<Rightarrow>
            (case has_start G n t of Inl e \<Rightarrow> Inl e
             | Inr a \<Rightarrow> Inr \<lparr>accepted = a, table = t, steps = ss\<rparr>)))"

subsection \<open>buildParseTree\<close>

text \<open>
  A node is \<^verbatim>\<open>{ label }\<close>, \<^verbatim>\<open>{ label, child: { label } }\<close> or \<^verbatim>\<open>{ label, left, right }\<close>.
  The recursion of \<^verbatim>\<open>choose\<close> (here \<open>choose_rec\<close>) follows the records it finds and has no bound of its own:
  the value \<open>None\<close> stands for a call that does not return.
\<close>

datatype parse_tree =
    Node symbol
  | NodeChild symbol symbol
  | NodeLR symbol parse_tree parse_tree

partial_function (option) choose_rec ::
  "backtable \<Rightarrow> symbol \<Rightarrow> nat \<Rightarrow> nat \<Rightarrow> (error + parse_tree) option" where
  "choose_rec b A i j =
     (case at2 b i j of Inl e \<Rightarrow> Some (Inl e)
      | Inr m \<Rightarrow>
         (case m A of None \<Rightarrow> Some (Inr (Node A))
          | Some [] \<Rightarrow> Some (Inr (Node A))
          | Some (first # rest) \<Rightarrow>
             (case first of
                Terminal tok \<Rightarrow> Some (Inr (NodeChild A tok))
              | Binary B C k \<Rightarrow>
                 Option.bind (choose_rec b B i k) (\<lambda>l.
                   case l of Inl e \<Rightarrow> Some (Inl e)
                   | Inr lt \<Rightarrow>
                      Option.bind (choose_rec b C (k + 1) j) (\<lambda>r.
                        case r of Inl e \<Rightarrow> Some (Inl e)
                        | Inr rt \<Rightarrow> Some (Inr (NodeLR A lt rt)))))))"

text \<open>\<^verbatim>\<open>null\<close> is the inner \<open>None\<close>; an array is never falsy, so \<^verbatim>\<open>!back\<close> is false.\<close>

definition buildParseTree ::
  "grammar \<Rightarrow> symbol list \<Rightarrow> backtable \<Rightarrow> (error + parse_tree option) option" where
  "buildParseTree G tokens b =
     (let n = length tokens; S = startSymbol G in
      if n = 0 then Some (Inr None)
      else
        (case at2 b 0 (n - 1) of Inl e \<Rightarrow> Some (Inl e)
         | Inr m \<Rightarrow>
            if m S = None then Some (Inr None)
            else map_option (map_sum id Some) (choose_rec b S 0 (n - 1))))"

subsection \<open>The predefined grammar\<close>

text \<open>\<^verbatim>\<open>exampleGrammar\<close> (source lines 41-53).\<close>

definition exampleGrammar :: grammar where
  "exampleGrammar =
     \<lparr>variables = [js ''S'', js ''A'', js ''B''],
      terminals = [js ''a'', js ''b''],
      startSymbol = js ''S'',
      rules = [(js ''S'', [[js ''A'', js ''B''], [js ''B'', js ''A'']]),
               (js ''A'', [[js ''a'']]),
               (js ''B'', [[js ''b'']])]\<rparr>"


section \<open>Compiling a grammar text and splitting the input into tokens\<close>

subsection \<open>String methods\<close>

text \<open>
  \<open>is_ws\<close> is the white space of \<^verbatim>\<open>trim()\<close> and of the regular expression class \<^verbatim>\<open>\s\<close>:
  tab, line feed, vertical tab, form feed, carriage return, space, U+00A0, U+1680,
  U+2000 to U+200A, U+2028, U+2029, U+202F, U+205F, U+3000 and U+FEFF.
\<close>

definition is_ws :: "nat \<Rightarrow> bool" where
  "is_ws c =
     (c = 9 \<or> c = 10 \<or> c = 11 \<or> c = 12 \<or> c = 13 \<or> c = 32 \<or> c = 160 \<or> c = 5760
      \<or> (8192 \<le> c \<and> c \<le> 8202)
      \<or> c = 8232 \<or> c = 8233 \<or> c = 8239 \<or> c = 8287 \<or> c = 12288 \<or> c = 65279)"

definition non_ws :: "nat \<Rightarrow> bool" where
  "non_ws c = (\<not> is_ws c)"

definition trim :: "jsstring \<Rightarrow> jsstring" where
  "trim s = rev (dropWhile is_ws (rev (dropWhile is_ws s)))"

text \<open>\<^verbatim>\<open>s.split(c)\<close> for a separator of one code unit; the empty string gives one empty piece.\<close>

fun split_on :: "nat \<Rightarrow> jsstring \<Rightarrow> jsstring list" where
  "split_on c [] = [[]]"
| "split_on c (x # xs) =
     (if x = c then [] # split_on c xs
      else (case split_on c xs of p # ps \<Rightarrow> (x # p) # ps | [] \<Rightarrow> [[x]]))"

text \<open>
  \<^verbatim>\<open>s.split(/\s+/)\<close>: the pieces between the maximal runs of white space. A run at the
  start or at the end leaves an empty piece there, and the empty string gives one empty
  piece.
\<close>

function split_ws :: "jsstring \<Rightarrow> jsstring list" where
  "split_ws s =
     (let r = dropWhile non_ws s in
      if r = [] then [takeWhile non_ws s]
      else takeWhile non_ws s # split_ws (dropWhile is_ws r))"
  by pat_completeness auto
termination
proof (relation "measure length")
  fix s r :: jsstring
  assume r: "r = dropWhile non_ws s" and ne: "r \<noteq> []"
  from ne r have "is_ws (hd r)"
    using hd_dropWhile [of non_ws s] by (simp add: non_ws_def)
  with ne have "length (dropWhile is_ws r) < length r"
    by (cases r) (simp_all add: le_imp_less_Suc length_dropWhile_le)
  also from r have "length r \<le> length s" by (simp add: length_dropWhile_le)
  finally show "(dropWhile is_ws r, s) \<in> measure length" by simp
qed simp

declare split_ws.simps [simp del]

text \<open>\<^verbatim>\<open>s.indexOf(pat)\<close>: the first position where \<open>pat\<close> occurs, or \<open>-1\<close>.\<close>

fun index_from :: "jsstring \<Rightarrow> jsstring \<Rightarrow> nat \<Rightarrow> int" where
  "index_from pat [] pos = (if pat = [] then int pos else - 1)"
| "index_from pat (x # xs) pos =
     (if take (length pat) (x # xs) = pat then int pos else index_from pat xs (Suc pos))"

definition indexOf :: "jsstring \<Rightarrow> jsstring \<Rightarrow> int" where
  "indexOf s pat = index_from pat s 0"

subsection \<open>parseGrammarFromText\<close>

text \<open>
  The head of the callback of \<^verbatim>\<open>lines.forEach\<close> (source lines 91-96): where the line is
  cut, and its two sides. \<open>None\<close> is the early \<^verbatim>\<open>return\<close> on a line without an arrow.
  The left side is \<^verbatim>\<open>line.slice(0, splitter).trim().replace(/\s+/g, "")\<close> and the right
  side \<^verbatim>\<open>line.slice(splitter + 2).trim()\<close>, whichever arrow was found.
\<close>

definition arrow_split :: "jsstring \<Rightarrow> (jsstring \<times> jsstring) option" where
  "arrow_split line =
     (let arrowIndex = indexOf line (js ''->'');
          altArrowIndex = (if arrowIndex = - 1 then indexOf line [8594] else arrowIndex);
          splitter = (if altArrowIndex \<noteq> - 1 then altArrowIndex else - 1)
      in if splitter = - 1 then None
         else Some (filter non_ws (trim (take (nat splitter) line)),
                    trim (drop (nat (splitter + 2)) line)))"

text \<open>
  The state of the compilation: the object \<^verbatim>\<open>rules\<close>, the two \<^verbatim>\<open>Set\<close>s (turned into
  arrays at the end, so kept in insertion order) and \<^verbatim>\<open>startSymbol\<close>.
\<close>

record parse_state =
  ps_rules :: "(symbol \<times> production list) list"
  ps_variablesSet :: "symbol list"
  ps_terminalsSet :: "symbol list"
  ps_startSymbol :: symbol

definition set_add :: "'a list \<Rightarrow> 'a \<Rightarrow> 'a list" where
  "set_add xs x = (if x \<in> set xs then xs else xs @ [x])"

text \<open>
  \<^verbatim>\<open>rules\<close> is created by \<^verbatim>\<open>{}\<close>, so it inherits the properties of \<^verbatim>\<open>Object.prototype\<close>.
  For one of these names \<^verbatim>\<open>rules[left]\<close> is a function (or the prototype object), which is
  truthy and has no \<^verbatim>\<open>push\<close>: line 98 leaves it alone, and \<^verbatim>\<open>rules[left].push(...)\<close>
  throws a \<^verbatim>\<open>TypeError\<close>.
\<close>

definition object_prototype_names :: "jsstring list" where
  "object_prototype_names =
     map js [''constructor'', ''__proto__'', ''__defineGetter__'', ''__defineSetter__'',
             ''__lookupGetter__'', ''__lookupSetter__'', ''hasOwnProperty'', ''isPrototypeOf'',
             ''propertyIsEnumerable'', ''toLocaleString'', ''toString'', ''valueOf'']"

text \<open>\<^verbatim>\<open>if (!rules[left]) rules[left] = [];\<close>\<close>

definition rules_init ::
  "(symbol \<times> production list) list \<Rightarrow> symbol \<Rightarrow> (symbol \<times> production list) list" where
  "rules_init obj left =
     (if map_of obj left \<noteq> None \<or> left \<in> set object_prototype_names then obj
      else obj @ [(left, [])])"

text \<open>\<^verbatim>\<open>rules[left].push(p)\<close>; a name that is no own key is an inherited one here.\<close>

definition rules_push ::
  "symbol \<Rightarrow> production \<Rightarrow> parse_state \<Rightarrow> error + parse_state" where
  "rules_push left p st =
     (case map_of (ps_rules st) left of
        None \<Rightarrow> Inl TypeError
      | Some ps \<Rightarrow>
          Inr (st\<lparr>ps_rules := map (\<lambda>(k, v). if k = left then (k, v @ [p]) else (k, v)) (ps_rules st)\<rparr>))"

text \<open>The three regular expressions of the callback:
  \<^verbatim>\<open>/^"([^"]+)"$/\<close>, \<^verbatim>\<open>/^[a-z]$/\<close> and \<^verbatim>\<open>/^[A-Z]{2}$/\<close> (34 is the double quote).\<close>

definition quotedMatch :: "jsstring \<Rightarrow> jsstring option" where
  "quotedMatch s =
     (if 2 < length s \<and> hd s = 34 \<and> last s = 34 \<and> 34 \<notin> set (butlast (tl s))
      then Some (butlast (tl s)) else None)"

definition is_lower_letter :: "jsstring \<Rightarrow> bool" where
  "is_lower_letter s = (length s = 1 \<and> 97 \<le> s ! 0 \<and> s ! 0 \<le> 122)"

definition is_upper_pair :: "jsstring \<Rightarrow> bool" where
  "is_upper_pair s =
     (length s = 2 \<and> 65 \<le> s ! 0 \<and> s ! 0 \<le> 90 \<and> 65 \<le> s ! 1 \<and> s ! 1 \<le> 90)"

text \<open>The callback of the inner \<^verbatim>\<open>forEach\<close>, one alternative (source lines 103-141).\<close>

definition add_production :: "symbol \<Rightarrow> jsstring \<Rightarrow> parse_state \<Rightarrow> error + parse_state" where
  "add_production left pr st =
     (let trimmed = trim pr in
      case quotedMatch trimmed of
        Some tok \<Rightarrow>
          rules_push left [tok] (st\<lparr>ps_terminalsSet := set_add (ps_terminalsSet st) tok\<rparr>)
      | None \<Rightarrow>
          (let parts = filter (\<lambda>p. p \<noteq> []) (split_ws trimmed) in
           if length parts = 1 then
             (let sym = parts ! 0 in
              if is_lower_letter sym then
                rules_push left [sym] (st\<lparr>ps_terminalsSet := set_add (ps_terminalsSet st) sym\<rparr>)
              else if is_upper_pair sym then
                rules_push left [[sym ! 0], [sym ! 1]]
                  (st\<lparr>ps_variablesSet :=
                        set_add (set_add (ps_variablesSet st) [sym ! 0]) [sym ! 1]\<rparr>)
              else
                rules_push left [sym] (st\<lparr>ps_variablesSet := set_add (ps_variablesSet st) sym\<rparr>))
           else if length parts = 2 then
             rules_push left [parts ! 0, parts ! 1]
               (st\<lparr>ps_variablesSet :=
                     set_add (set_add (ps_variablesSet st) (parts ! 0)) (parts ! 1)\<rparr>)
           else Inr st))"

text \<open>The callback of \<^verbatim>\<open>lines.forEach\<close> (source lines 90-142); 124 is the bar.\<close>

definition process_line :: "nat \<times> jsstring \<Rightarrow> parse_state \<Rightarrow> error + parse_state" where
  "process_line il st =
     (case il of (idx, line) \<Rightarrow>
        (case arrow_split line of
           None \<Rightarrow> Inr st
         | Some (left, right) \<Rightarrow>
            (let st1 = (if idx = 0 \<and> left \<noteq> [] then st\<lparr>ps_startSymbol := left\<rparr> else st);
                 st2 = st1\<lparr>ps_rules := rules_init (ps_rules st1) left\<rparr>;
                 st3 = st2\<lparr>ps_variablesSet := set_add (ps_variablesSet st2) left\<rparr>
             in foldE (add_production left) (map trim (split_on 124 right)) st3)))"

definition grammar_lines :: "jsstring \<Rightarrow> jsstring list" where
  "grammar_lines text = filter (\<lambda>l. 0 < length l) (map trim (split_on 10 text))"

definition parseGrammarFromText :: "jsstring \<Rightarrow> error + grammar" where
  "parseGrammarFromText text =
     (let lines = grammar_lines text in
      case foldE process_line (zip [0 ..< length lines] lines)
             \<lparr>ps_rules = [], ps_variablesSet = [], ps_terminalsSet = [],
              ps_startSymbol = js ''S''\<rparr> of
        Inl e \<Rightarrow> Inl e
      | Inr st \<Rightarrow>
          Inr \<lparr>variables = ps_variablesSet st, terminals = ps_terminalsSet st,
               startSymbol = ps_startSymbol st, rules = ps_rules st\<rparr>)"

subsection \<open>The two tokenizations\<close>

text \<open>
  The handlers of the two buttons split the input themselves. The simulator
  (source lines 641-643) tests for a space, \<^verbatim>\<open>simWord.includes(' ')\<close>, and splits the
  trimmed string at white space or into its code units; the sentence tab (line 529) always
  splits the trimmed string at white space.
\<close>

definition simulator_tokens :: "jsstring \<Rightarrow> jsstring list" where
  "simulator_tokens simWord =
     (if 32 \<in> set simWord then split_ws (trim simWord) else map (\<lambda>c. [c]) (trim simWord))"

definition pgc_tokens :: "jsstring \<Rightarrow> jsstring list" where
  "pgc_tokens pgcSentence = split_ws (trim pgcSentence)"

subsection \<open>The default grammar and sentence of the sentence tab\<close>

text \<open>The initial values of \<^verbatim>\<open>pgcGrammarText\<close> and \<^verbatim>\<open>pgcSentence\<close> (source lines 27-30);
  10 is the line feed and 34 the double quote.\<close>

definition pgcGrammarText :: jsstring where
  "pgcGrammarText =
     js ''S -> NP VP'' @ [10] @ js ''NP -> Det N'' @ [10] @ js ''VP -> V NP'' @ [10]
     @ js ''Det -> '' @ [34] @ js ''the'' @ [34] @ js '' | '' @ [34] @ js ''a'' @ [34] @ [10]
     @ js ''N -> '' @ [34] @ js ''cat'' @ [34] @ js '' | '' @ [34] @ js ''dog'' @ [34] @ [10]
     @ js ''V -> '' @ [34] @ js ''chased'' @ [34]"

definition pgcSentence :: jsstring where
  "pgcSentence = js ''the cat chased a dog''"
section \<open>The table as a function of its indices\<close>

text \<open>
  For the proofs the two-dimensional array is read as a function from index pairs to
  cells, and each loop of the recognizers as a \<open>fold\<close> over that function. The
  recognizers are shown to compute these folds on every input, without an exception.
\<close>

type_synonym ftab = "nat \<Rightarrow> nat \<Rightarrow> symbol set"

definition dims :: "nat \<Rightarrow> 'a list list \<Rightarrow> bool" where
  "dims n t = (length t = n \<and> list_all (\<lambda>row. length row = n) t)"

definition cells :: "'a list list \<Rightarrow> nat \<Rightarrow> nat \<Rightarrow> 'a" where
  "cells t = (\<lambda>i j. t ! i ! j)"

definition cell_upd :: "ftab \<Rightarrow> nat \<Rightarrow> nat \<Rightarrow> symbol set \<Rightarrow> ftab" where
  "cell_upd f i j S = f(i := (f i)(j := f i j \<union> S))"

definition f_diag_prod :: "symbol \<Rightarrow> nat \<Rightarrow> symbol \<Rightarrow> production \<Rightarrow> ftab \<Rightarrow> ftab" where
  "f_diag_prod tok i A pr f = (if length pr = 1 \<and> pr ! 0 = tok then cell_upd f i i {A} else f)"

definition f_diag_var :: "grammar \<Rightarrow> symbol \<Rightarrow> nat \<Rightarrow> symbol \<Rightarrow> ftab \<Rightarrow> ftab" where
  "f_diag_var G tok i A = fold (f_diag_prod tok i A) (obj_get (rules G) A)"

definition f_diag_pos :: "grammar \<Rightarrow> symbol list \<Rightarrow> nat \<Rightarrow> ftab \<Rightarrow> ftab" where
  "f_diag_pos G tokens i = fold (f_diag_var G (tokens ! i) i) (object_keys (rules G))"

definition f_diag_loop :: "grammar \<Rightarrow> symbol list \<Rightarrow> ftab \<Rightarrow> ftab" where
  "f_diag_loop G tokens = fold (f_diag_pos G tokens) [0 ..< length tokens]"

definition f_bin_prod :: "nat \<Rightarrow> nat \<Rightarrow> nat \<Rightarrow> symbol \<Rightarrow> production \<Rightarrow> ftab \<Rightarrow> ftab" where
  "f_bin_prod i j k A pr f =
     (if length pr = 2 \<and> pr ! 0 \<in> f i k \<and> pr ! 1 \<in> f (k + 1) j then cell_upd f i j {A} else f)"

definition f_bin_var :: "grammar \<Rightarrow> nat \<Rightarrow> nat \<Rightarrow> nat \<Rightarrow> symbol \<Rightarrow> ftab \<Rightarrow> ftab" where
  "f_bin_var G i j k A = fold (f_bin_prod i j k A) (obj_get (rules G) A)"

definition f_bin_split :: "grammar \<Rightarrow> nat \<Rightarrow> nat \<Rightarrow> nat \<Rightarrow> ftab \<Rightarrow> ftab" where
  "f_bin_split G i j k = fold (f_bin_var G i j k) (object_keys (rules G))"

definition f_bin_cell :: "grammar \<Rightarrow> nat \<Rightarrow> nat \<Rightarrow> ftab \<Rightarrow> ftab" where
  "f_bin_cell G len i = fold (f_bin_split G i (i + len - 1)) [i ..< i + len - 1]"

definition f_bin_len :: "grammar \<Rightarrow> nat \<Rightarrow> nat \<Rightarrow> ftab \<Rightarrow> ftab" where
  "f_bin_len G n len = fold (f_bin_cell G len) [0 ..< n + 1 - len]"

definition f_upper_loop :: "grammar \<Rightarrow> nat \<Rightarrow> ftab \<Rightarrow> ftab" where
  "f_upper_loop G n = fold (f_bin_len G n) [2 ..< n + 1]"

definition f_fill :: "grammar \<Rightarrow> symbol list \<Rightarrow> ftab \<Rightarrow> ftab" where
  "f_fill G tokens f = f_upper_loop G (length tokens) (f_diag_loop G tokens f)"

definition sim_ptr :: "nat \<Rightarrow> table \<times> backtable \<Rightarrow> ftab \<Rightarrow> bool" where
  "sim_ptr n st f = (dims n (fst st) \<and> dims n (snd st) \<and> cells (fst st) = f)"

definition sim_trace :: "nat \<Rightarrow> table \<times> jsstring list \<Rightarrow> ftab \<Rightarrow> bool" where
  "sim_trace n st f = (dims n (fst st) \<and> cells (fst st) = f)"

text \<open>
  What one pass adds to a cell: \<open>diag_set\<close> on the diagonal, \<open>new_set\<close> above it.
  Two tables \<open>agree\<close> when they hold the same sets in the cells \<open>i \<le> j < n\<close>.
\<close>

definition diag_set :: "grammar \<Rightarrow> symbol \<Rightarrow> symbol set" where
  "diag_set G tok =
     {A \<in> set (object_keys (rules G)). \<exists>pr \<in> set (obj_get (rules G) A). length pr = 1 \<and> pr ! 0 = tok}"

definition bin_cond :: "ftab \<Rightarrow> nat \<Rightarrow> nat \<Rightarrow> nat \<Rightarrow> production \<Rightarrow> bool" where
  "bin_cond f i j k pr = (length pr = 2 \<and> pr ! 0 \<in> f i k \<and> pr ! 1 \<in> f (k + 1) j)"

definition new_set :: "grammar \<Rightarrow> ftab \<Rightarrow> nat \<Rightarrow> nat \<Rightarrow> symbol set" where
  "new_set G f i j =
     {A \<in> set (object_keys (rules G)).
        \<exists>k \<in> {i ..< j}. \<exists>pr \<in> set (obj_get (rules G) A). bin_cond f i j k pr}"


definition agree :: "nat \<Rightarrow> ftab \<Rightarrow> ftab \<Rightarrow> bool" where
  "agree n f g = (\<forall>i j. i \<le> j \<longrightarrow> j < n \<longrightarrow> f i j = g i j)"

section \<open>Derivations of a grammar in Chomsky normal form\<close>

text \<open>
  The ground truth follows the usual definition. A sentential form is a list of variables
  and terminals; a production with one symbol rewrites a variable to that terminal, a
  production with two symbols rewrites it to two variables; a grammar generates \<open>w\<close>
  when the start symbol rewrites to \<open>w\<close> in any number of steps. \<open>cnf\<close> says that every
  production the object holds has one or two symbols. \<open>derives\<close> (derivation trees) and
  \<open>dform\<close> (a sentential form deriving a word piece by piece) serve the proofs, and
  \<open>D G w i j\<close> is the set of variables deriving the tokens \<open>i\<close> to \<open>j\<close> of \<open>w\<close>.
\<close>

datatype sym = Var symbol | Tok symbol

definition rhs_form :: "production \<Rightarrow> sym list" where
  "rhs_form pr = (if length pr = 1 then [Tok (pr ! 0)] else map Var pr)"

definition cnf :: "grammar \<Rightarrow> bool" where
  "cnf G = list_all (\<lambda>A. list_all (\<lambda>pr. length pr = 1 \<or> length pr = 2) (obj_get (rules G) A))
             (object_keys (rules G))"

inductive step :: "grammar \<Rightarrow> sym list \<Rightarrow> sym list \<Rightarrow> bool" for G where
  rewrite: "pr \<in> set (obj_get (rules G) A) \<Longrightarrow> step G (u @ [Var A] @ v) (u @ rhs_form pr @ v)"

definition generates :: "grammar \<Rightarrow> symbol list \<Rightarrow> bool" where
  "generates G w = rtranclp (step G) [Var (startSymbol G)] (map Tok w)"

inductive derives :: "grammar \<Rightarrow> symbol \<Rightarrow> symbol list \<Rightarrow> bool" for G where
  leaf: "[a] \<in> set (obj_get (rules G) A) \<Longrightarrow> derives G A [a]"
| branch: "[B, C] \<in> set (obj_get (rules G) A) \<Longrightarrow> derives G B u \<Longrightarrow> derives G C v
      \<Longrightarrow> derives G A (u @ v)"

inductive dform :: "grammar \<Rightarrow> sym list \<Rightarrow> symbol list \<Rightarrow> bool" for G where
  dnil: "dform G [] []"
| dtok: "dform G \<alpha> w \<Longrightarrow> dform G (Tok a # \<alpha>) (a # w)"
| dvar: "derives G A u \<Longrightarrow> dform G \<alpha> w \<Longrightarrow> dform G (Var A # \<alpha>) (u @ w)"

definition D :: "grammar \<Rightarrow> symbol list \<Rightarrow> nat \<Rightarrow> nat \<Rightarrow> symbol set" where
  "D G w i j = {A. derives G A (take (Suc j - i) (drop i w))}"

section \<open>Words of a string and occurrences of a marker\<close>

text \<open>
  \<open>ws_words s\<close> are the white-space-delimited words of \<open>s\<close>: its maximal runs of
  characters that are not white space. \<open>occurs_at pat s k\<close> says that \<open>pat\<close> stands in
  \<open>s\<close> at position \<open>k\<close>, \<open>first_at\<close> that this is its first occurrence, and \<open>absent\<close>
  that it occurs nowhere.
\<close>

function ws_words :: "jsstring \<Rightarrow> jsstring list" where
  "ws_words s =
     (let r = dropWhile is_ws s in
      if r = [] then [] else takeWhile non_ws r # ws_words (dropWhile non_ws r))"
  by pat_completeness auto
termination
proof (relation "measure length")
  fix s r :: jsstring
  assume r: "r = dropWhile is_ws s" and ne: "r \<noteq> []"
  from ne r have "non_ws (hd r)"
    using hd_dropWhile [of is_ws s] by (simp add: non_ws_def)
  with ne have "length (dropWhile non_ws r) < length r"
    by (cases r) (simp_all add: le_imp_less_Suc length_dropWhile_le)
  also from r have "length r \<le> length s" by (simp add: length_dropWhile_le)
  finally show "(dropWhile non_ws r, s) \<in> measure length" by simp
qed simp

declare ws_words.simps [simp del]

lemma ws_words_dropWhile: "ws_words (dropWhile is_ws s) = ws_words s"
  by (subst ws_words.simps, subst (2) ws_words.simps) (simp add: dropWhile_idem)



section \<open>Values used by the scenarios\<close>

text \<open>The grammar that the default grammar text compiles to.\<close>

definition pgcGrammar :: grammar where
  "pgcGrammar =
     \<lparr>variables = [js ''S'', js ''NP'', js ''VP'', js ''Det'', js ''N'', js ''V''],
      terminals = [js ''the'', js ''a'', js ''cat'', js ''dog'', js ''chased''],
      startSymbol = js ''S'',
      rules = [(js ''S'', [[js ''NP'', js ''VP'']]),
               (js ''NP'', [[js ''Det'', js ''N'']]),
               (js ''VP'', [[js ''V'', js ''NP'']]),
               (js ''Det'', [[js ''the''], [js ''a'']]),
               (js ''N'', [[js ''cat''], [js ''dog'']]),
               (js ''V'', [[js ''chased'']])]\<rparr>"
text \<open>A grammar in which a variable matches at two splits of a span, and by two
  productions at one split.\<close>

definition tieGrammar :: grammar where
  "tieGrammar =
     \<lparr>variables = [js ''S'', js ''T''],
      terminals = [js ''a''],
      startSymbol = js ''S'',
      rules = [(js ''S'', [[js ''S'', js ''S''], [js ''S'', js ''T''], [js ''a'']]),
               (js ''T'', [[js ''a'']])]\<rparr>"

section \<open>Parse trees and sound backpointers\<close>

text \<open>
  \<open>no_bare\<close> holds of a tree without a node \<^verbatim>\<open>{ label }\<close>, the fallback of \<^verbatim>\<open>choose\<close>;
  \<open>leaves\<close> are the terminal leaves from left to right, \<open>label\<close> is the label of the
  root. A backpointer record of the cell \<open>(i, j)\<close> is sound (\<open>bp_ok\<close>) when it is a
  terminal record for the token at \<open>i = j\<close>, or a binary record whose split lies in
  \<open>i \<le> k < j\<close> and whose two variables have records in the cells \<open>(i, k)\<close> and
  \<open>(k + 1, j)\<close>. \<open>back_inv\<close> says that every list of records is non-empty and sound,
  \<open>ptr_inv\<close> adds that a table cell holds exactly the keys of its backpointer cell.
  \<open>first_only\<close> drops all but the first record of every list.
\<close>

fun no_bare :: "parse_tree \<Rightarrow> bool" where
  "no_bare (Node A) = False"
| "no_bare (NodeChild A tok) = True"
| "no_bare (NodeLR A l r) = (no_bare l \<and> no_bare r)"

fun leaves :: "parse_tree \<Rightarrow> symbol list" where
  "leaves (Node A) = []"
| "leaves (NodeChild A tok) = [tok]"
| "leaves (NodeLR A l r) = leaves l @ leaves r"

fun label :: "parse_tree \<Rightarrow> symbol" where
  "label (Node A) = A"
| "label (NodeChild A tok) = A"
| "label (NodeLR A l r) = A"

fun bp_ok :: "backtable \<Rightarrow> symbol list \<Rightarrow> nat \<Rightarrow> nat \<Rightarrow> backptr \<Rightarrow> bool" where
  "bp_ok b w i j (Terminal tok) = (i = j \<and> tok = w ! i)"
| "bp_ok b w i j (Binary B C k) =
     (i \<le> k \<and> k < j \<and> (b ! i ! k) B \<noteq> None \<and> (b ! (k + 1) ! j) C \<noteq> None)"

definition back_inv :: "nat \<Rightarrow> symbol list \<Rightarrow> backtable \<Rightarrow> bool" where
  "back_inv n w b =
     (dims n b \<and>
      (\<forall>i j A rs. i < n \<longrightarrow> j < n \<longrightarrow> (b ! i ! j) A = Some rs \<longrightarrow>
          rs \<noteq> [] \<and> (\<forall>r \<in> set rs. bp_ok b w i j r)))"

definition ptr_inv :: "nat \<Rightarrow> symbol list \<Rightarrow> table \<times> backtable \<Rightarrow> bool" where
  "ptr_inv n w st =
     (dims n (fst st) \<and> back_inv n w (snd st) \<and>
      (\<forall>i j. i < n \<longrightarrow> j < n \<longrightarrow> fst st ! i ! j = dom (snd st ! i ! j)))"

definition first_only :: "backtable \<Rightarrow> backtable" where
  "first_only b = map (map (\<lambda>m A. map_option (take 1) (m A))) b"

section \<open>The record that a variable gets first\<close>

text \<open>
  The recognizer appends a record to the list of a variable each time a production of the
  variable matches, in the order of its loops: splits in increasing order, the variables
  in the order of \<^verbatim>\<open>Object.keys\<close>, and the productions of a variable in
  the order of its array. The tree builder follows the first record of a list.
  \<open>first_rec G f i j A\<close> names that record for a cell above the diagonal, from the grammar
  and a table \<open>f\<close> alone: the least split \<open>k\<close> in \<open>i \<le> k < j\<close> at which a production
  of \<open>A\<close> has its two variables in the cells \<open>(i, k)\<close> and \<open>(k + 1, j)\<close>, and at that
  split the first such production of \<open>A\<close>. \<open>first_recs G w\<close> takes for \<open>f\<close> the
  variables that derive each span of \<open>w\<close>, and on the diagonal gives the terminal record to
  the variables with a production for the token. \<open>first_tree\<close> is the tree that
  these records spell out, and \<open>D_table\<close> is the table of the variables that derive each
  span, with empty cells below the diagonal.

  For the proofs, \<open>head_of\<close> reads the first record of every list of a cell, and the
  functions \<open>p_diag_prod\<close> to \<open>p_fill\<close> are the loops of \<^verbatim>\<open>cykWithPointers\<close> on a pair: the
  table as a function, and the first records as a function (\<open>head_fill\<close> keeps an earlier
  record of a variable, as \<^verbatim>\<open>push\<close> does).
\<close>

type_synonym htab = "nat \<Rightarrow> nat \<Rightarrow> symbol \<rightharpoonup> backptr"

definition head_of :: "bcell \<Rightarrow> symbol \<rightharpoonup> backptr" where
  "head_of m = (\<lambda>A. case m A of None \<Rightarrow> None | Some rs \<Rightarrow> (case rs of [] \<Rightarrow> None | r # _ \<Rightarrow> Some r))"

definition head_fill :: "htab \<Rightarrow> nat \<Rightarrow> nat \<Rightarrow> (symbol \<rightharpoonup> backptr) \<Rightarrow> htab" where
  "head_fill h i j m = h(i := (h i)(j := m ++ h i j))"

fun firsts :: "('a \<rightharpoonup> 'b) list \<Rightarrow> ('a \<rightharpoonup> 'b)" where
  "firsts [] = Map.empty"
| "firsts (m # ms) = firsts ms ++ m"

definition p_diag_prod ::
  "symbol \<Rightarrow> nat \<Rightarrow> symbol \<Rightarrow> production \<Rightarrow> ftab \<times> htab \<Rightarrow> ftab \<times> htab" where
  "p_diag_prod tok i A pr fh =
     (if length pr = 1 \<and> pr ! 0 = tok
      then (cell_upd (fst fh) i i {A}, head_fill (snd fh) i i [A \<mapsto> Terminal tok]) else fh)"

definition p_diag_var :: "grammar \<Rightarrow> symbol \<Rightarrow> nat \<Rightarrow> symbol \<Rightarrow> ftab \<times> htab \<Rightarrow> ftab \<times> htab" where
  "p_diag_var G tok i A = fold (p_diag_prod tok i A) (obj_get (rules G) A)"

definition p_diag_pos :: "grammar \<Rightarrow> symbol list \<Rightarrow> nat \<Rightarrow> ftab \<times> htab \<Rightarrow> ftab \<times> htab" where
  "p_diag_pos G tokens i = fold (p_diag_var G (tokens ! i) i) (object_keys (rules G))"

definition p_diag_loop :: "grammar \<Rightarrow> symbol list \<Rightarrow> ftab \<times> htab \<Rightarrow> ftab \<times> htab" where
  "p_diag_loop G tokens = fold (p_diag_pos G tokens) [0 ..< length tokens]"

definition p_bin_prod ::
  "nat \<Rightarrow> nat \<Rightarrow> nat \<Rightarrow> symbol \<Rightarrow> production \<Rightarrow> ftab \<times> htab \<Rightarrow> ftab \<times> htab" where
  "p_bin_prod i j k A pr fh =
     (if bin_cond (fst fh) i j k pr
      then (cell_upd (fst fh) i j {A}, head_fill (snd fh) i j [A \<mapsto> Binary (pr ! 0) (pr ! 1) k])
      else fh)"

definition p_bin_var ::
  "grammar \<Rightarrow> nat \<Rightarrow> nat \<Rightarrow> nat \<Rightarrow> symbol \<Rightarrow> ftab \<times> htab \<Rightarrow> ftab \<times> htab" where
  "p_bin_var G i j k A = fold (p_bin_prod i j k A) (obj_get (rules G) A)"

definition p_bin_split :: "grammar \<Rightarrow> nat \<Rightarrow> nat \<Rightarrow> nat \<Rightarrow> ftab \<times> htab \<Rightarrow> ftab \<times> htab" where
  "p_bin_split G i j k = fold (p_bin_var G i j k) (object_keys (rules G))"

definition p_bin_cell :: "grammar \<Rightarrow> nat \<Rightarrow> nat \<Rightarrow> ftab \<times> htab \<Rightarrow> ftab \<times> htab" where
  "p_bin_cell G len i = fold (p_bin_split G i (i + len - 1)) [i ..< i + len - 1]"

definition p_bin_len :: "grammar \<Rightarrow> nat \<Rightarrow> nat \<Rightarrow> ftab \<times> htab \<Rightarrow> ftab \<times> htab" where
  "p_bin_len G n len = fold (p_bin_cell G len) [0 ..< n + 1 - len]"

definition p_upper_loop :: "grammar \<Rightarrow> nat \<Rightarrow> ftab \<times> htab \<Rightarrow> ftab \<times> htab" where
  "p_upper_loop G n = fold (p_bin_len G n) [2 ..< n + 1]"

definition p_fill :: "grammar \<Rightarrow> symbol list \<Rightarrow> ftab \<times> htab \<Rightarrow> ftab \<times> htab" where
  "p_fill G tokens fh = p_upper_loop G (length tokens) (p_diag_loop G tokens fh)"

definition split_rec :: "grammar \<Rightarrow> ftab \<Rightarrow> nat \<Rightarrow> nat \<Rightarrow> nat \<Rightarrow> symbol \<rightharpoonup> backptr" where
  "split_rec G f i j k =
     (\<lambda>A. map_option (\<lambda>pr. Binary (pr ! 0) (pr ! 1) k)
            (find (bin_cond f i j k) (obj_get (rules G) A)))"

definition first_rec :: "grammar \<Rightarrow> ftab \<Rightarrow> nat \<Rightarrow> nat \<Rightarrow> symbol \<rightharpoonup> backptr" where
  "first_rec G f i j =
     (\<lambda>A. case find (\<lambda>k. split_rec G f i j k A \<noteq> None) [i ..< j] of
            None \<Rightarrow> None
          | Some k \<Rightarrow> split_rec G f i j k A)"

definition diag_rec :: "grammar \<Rightarrow> symbol \<Rightarrow> symbol \<rightharpoonup> backptr" where
  "diag_rec G tok = (\<lambda>A. if A \<in> diag_set G tok then Some (Terminal tok) else None)"

definition first_recs :: "grammar \<Rightarrow> symbol list \<Rightarrow> nat \<Rightarrow> nat \<Rightarrow> symbol \<rightharpoonup> backptr" where
  "first_recs G w i j = (if i = j then diag_rec G (w ! i) else first_rec G (D G w) i j)"

function first_tree :: "grammar \<Rightarrow> symbol list \<Rightarrow> symbol \<Rightarrow> nat \<Rightarrow> nat \<Rightarrow> parse_tree" where
  "first_tree G w A i j =
     (case first_recs G w i j A of
        None \<Rightarrow> Node A
      | Some (Terminal tok) \<Rightarrow> NodeChild A tok
      | Some (Binary B C k) \<Rightarrow> NodeLR A (first_tree G w B i k) (first_tree G w C (k + 1) j))"
  by pat_completeness auto
termination
proof (relation "measure (\<lambda>(G, w, A, i, j). j - i)")
  show "wf (measure (\<lambda>(G, w, A, i, j). j - i))" by simp
next
  fix G :: grammar and w :: "symbol list" and A :: symbol and i j :: nat
    and r :: backptr and B C :: symbol and k :: nat
  assume "first_recs G w i j A = Some r" "r = Binary B C k"
  then have "first_rec G (D G w) i j A = Some (Binary B C k)"
    by (auto simp: first_recs_def diag_rec_def split: if_splits)
  then obtain k' where "find (\<lambda>k. split_rec G (D G w) i j k A \<noteq> None) [i ..< j] = Some k'"
    and "split_rec G (D G w) i j k' A = Some (Binary B C k)"
    by (auto simp: first_rec_def split: option.splits)
  then have "i \<le> k \<and> k < j"
    by (auto simp: find_Some_iff split_rec_def)
  then show "((G, w, B, i, k), (G, w, A, i, j)) \<in> measure (\<lambda>(G, w, A, i, j). j - i)"
    and "((G, w, C, k + 1, j), (G, w, A, i, j)) \<in> measure (\<lambda>(G, w, A, i, j). j - i)"
    by auto
qed

declare first_tree.simps [simp del]

definition D_table :: "grammar \<Rightarrow> symbol list \<Rightarrow> table" where
  "D_table G w =
     map (\<lambda>i. map (\<lambda>j. if i \<le> j then D G w i j else {}) [0 ..< length w]) [0 ..< length w]"

definition sim_head :: "nat \<Rightarrow> table \<times> backtable \<Rightarrow> ftab \<times> htab \<Rightarrow> bool" where
  "sim_head n st fh =
     (dims n (fst st) \<and> dims n (snd st) \<and> cells (fst st) = fst fh
      \<and> (\<forall>i j. i < n \<longrightarrow> j < n \<longrightarrow> head_of (snd st ! i ! j) = snd fh i j))"

section \<open>The recognizers never index out of range\<close>

lemma at2_dims: "dims n t \<Longrightarrow> i < n \<Longrightarrow> j < n \<Longrightarrow> at2 t i j = Inr (t ! i ! j)"
  by (auto simp: dims_def at2_def list_all_length)

lemma dims_upd2: "dims n t \<Longrightarrow> dims n (upd2 t i j v)"
  by (cases "i < length t") (auto simp: dims_def upd2_def list_all_length nth_list_update)

lemma cells_upd2:
  "dims n t \<Longrightarrow> i < n \<Longrightarrow> j < n \<Longrightarrow> cells (upd2 t i j v) = (cells t)(i := (cells t i)(j := v))"
  by (auto simp: dims_def upd2_def cells_def list_all_length nth_list_update fun_eq_iff)

lemma cells_insert:
  "dims n t \<Longrightarrow> i < n \<Longrightarrow> j < n \<Longrightarrow>
     cells (upd2 t i j (insert A (t ! i ! j))) = cell_upd (cells t) i j {A}"
  by (simp add: cells_upd2 cell_upd_def) (simp add: cells_def)

lemma foldE_sim:
  assumes "R s a"
    and "\<And>x s a. x \<in> set xs \<Longrightarrow> R s a \<Longrightarrow> \<exists>s'. f x s = Inr s' \<and> R s' (g x a)"
  shows "\<exists>s'. foldE f xs s = Inr s' \<and> R s' (fold g xs a)"
  using assms
proof (induction xs arbitrary: s a)
  case Nil
  then show ?case by simp
next
  case (Cons x xs)
  from Cons.prems obtain s1 where s1: "f x s = Inr s1" "R s1 (g x a)"
    by (meson list.set_intros(1))
  have "\<exists>s'. foldE f xs s1 = Inr s' \<and> R s' (fold g xs (g x a))"
    by (rule Cons.IH [OF s1(2)]) (simp add: Cons.prems(2))
  with s1 show ?case by simp
qed

lemma diag_prod_sim:
  "i < n \<Longrightarrow> sim_ptr n st f \<Longrightarrow>
     \<exists>st'. diag_prod tok i A pr st = Inr st' \<and> sim_ptr n st' (f_diag_prod tok i A pr f)"
  by (cases st)
     (auto simp: sim_ptr_def diag_prod_def f_diag_prod_def at2_dims dims_upd2 cells_insert)

lemma diag_var_sim:
  "i < n \<Longrightarrow> sim_ptr n st f \<Longrightarrow>
     \<exists>st'. diag_var G tok i A st = Inr st' \<and> sim_ptr n st' (f_diag_var G tok i A f)"
  unfolding diag_var_def f_diag_var_def
  by (rule foldE_sim [where R = "sim_ptr n"]) (assumption, rule diag_prod_sim, simp_all)

lemma diag_pos_sim:
  "i < n \<Longrightarrow> sim_ptr n st f \<Longrightarrow>
     \<exists>st'. diag_pos G w i st = Inr st' \<and> sim_ptr n st' (f_diag_pos G w i f)"
  unfolding diag_pos_def f_diag_pos_def
  by (rule foldE_sim [where R = "sim_ptr n"]) (assumption, rule diag_var_sim, simp_all)

lemma diag_loop_sim:
  "length w = n \<Longrightarrow> sim_ptr n st f \<Longrightarrow>
     \<exists>st'. diag_loop G w st = Inr st' \<and> sim_ptr n st' (f_diag_loop G w f)"
  unfolding diag_loop_def f_diag_loop_def
  by (rule foldE_sim [where R = "sim_ptr n"]) (assumption, rule diag_pos_sim, simp_all)

lemma bin_prod_sim:
  "i < n \<Longrightarrow> j < n \<Longrightarrow> k < n \<Longrightarrow> k + 1 < n \<Longrightarrow> sim_ptr n st f \<Longrightarrow>
     \<exists>st'. bin_prod i j k A pr st = Inr st' \<and> sim_ptr n st' (f_bin_prod i j k A pr f)"
  by (cases st)
     (auto simp: sim_ptr_def bin_prod_def f_bin_prod_def at2_dims dims_upd2 cells_insert,
      auto simp: cells_def)

lemma bin_var_sim:
  "i < n \<Longrightarrow> j < n \<Longrightarrow> k < n \<Longrightarrow> k + 1 < n \<Longrightarrow> sim_ptr n st f \<Longrightarrow>
     \<exists>st'. bin_var G i j k A st = Inr st' \<and> sim_ptr n st' (f_bin_var G i j k A f)"
  unfolding bin_var_def f_bin_var_def
  by (rule foldE_sim [where R = "sim_ptr n"]) (assumption, rule bin_prod_sim, simp_all)

lemma bin_split_sim:
  "i < n \<Longrightarrow> j < n \<Longrightarrow> k < n \<Longrightarrow> k + 1 < n \<Longrightarrow> sim_ptr n st f \<Longrightarrow>
     \<exists>st'. bin_split G i j k st = Inr st' \<and> sim_ptr n st' (f_bin_split G i j k f)"
  unfolding bin_split_def f_bin_split_def
  by (rule foldE_sim [where R = "sim_ptr n"]) (assumption, rule bin_var_sim, simp_all)

lemma bin_cell_sim:
  "2 \<le> len \<Longrightarrow> i + len \<le> n \<Longrightarrow> sim_ptr n st f \<Longrightarrow>
     \<exists>st'. bin_cell G len i st = Inr st' \<and> sim_ptr n st' (f_bin_cell G len i f)"
  unfolding bin_cell_def f_bin_cell_def Let_def
  by (rule foldE_sim [where R = "sim_ptr n"]) (assumption, rule bin_split_sim, auto)

lemma bin_len_sim:
  "2 \<le> len \<Longrightarrow> len \<le> n \<Longrightarrow> sim_ptr n st f \<Longrightarrow>
     \<exists>st'. bin_len G n len st = Inr st' \<and> sim_ptr n st' (f_bin_len G n len f)"
  unfolding bin_len_def f_bin_len_def
  by (rule foldE_sim [where R = "sim_ptr n"]) (assumption, rule bin_cell_sim, auto)

lemma upper_loop_sim:
  "sim_ptr n st f \<Longrightarrow>
     \<exists>st'. upper_loop G n st = Inr st' \<and> sim_ptr n st' (f_upper_loop G n f)"
  unfolding upper_loop_def f_upper_loop_def
  by (rule foldE_sim [where R = "sim_ptr n"]) (assumption, rule bin_len_sim, auto)

lemma cyk_fill_sim:
  assumes "length w = n" "sim_ptr n st f"
  shows "\<exists>st'. cyk_fill G w st = Inr st' \<and> sim_ptr n st' (f_fill G w f)"
proof -
  from diag_loop_sim [OF assms] obtain st1 where
    "diag_loop G w st = Inr st1" "sim_ptr n st1 (f_diag_loop G w f)" by blast
  with upper_loop_sim [of n st1 _ G] assms(1) show ?thesis
    by (auto simp: cyk_fill_def f_fill_def)
qed

lemma trace_diag_prod_sim:
  "i < n \<Longrightarrow> sim_trace n st f \<Longrightarrow>
     \<exists>st'. trace_diag_prod tok i A pr st = Inr st' \<and> sim_trace n st' (f_diag_prod tok i A pr f)"
  by (cases st)
     (auto simp: sim_trace_def trace_diag_prod_def f_diag_prod_def at2_dims dims_upd2 cells_insert)

lemma trace_diag_var_sim:
  "i < n \<Longrightarrow> sim_trace n st f \<Longrightarrow>
     \<exists>st'. trace_diag_var G tok i A st = Inr st' \<and> sim_trace n st' (f_diag_var G tok i A f)"
  unfolding trace_diag_var_def f_diag_var_def
  by (rule foldE_sim [where R = "sim_trace n"]) (assumption, rule trace_diag_prod_sim, simp_all)

lemma trace_diag_pos_sim:
  "i < n \<Longrightarrow> sim_trace n st f \<Longrightarrow>
     \<exists>st'. trace_diag_pos G w i st = Inr st' \<and> sim_trace n st' (f_diag_pos G w i f)"
  unfolding trace_diag_pos_def f_diag_pos_def
  by (rule foldE_sim [where R = "sim_trace n"]) (assumption, rule trace_diag_var_sim, simp_all)

lemma trace_diag_loop_sim:
  "length w = n \<Longrightarrow> sim_trace n st f \<Longrightarrow>
     \<exists>st'. trace_diag_loop G w st = Inr st' \<and> sim_trace n st' (f_diag_loop G w f)"
  unfolding trace_diag_loop_def f_diag_loop_def
  by (rule foldE_sim [where R = "sim_trace n"]) (assumption, rule trace_diag_pos_sim, simp_all)

lemma trace_bin_prod_sim:
  "i < n \<Longrightarrow> j < n \<Longrightarrow> k < n \<Longrightarrow> k + 1 < n \<Longrightarrow> sim_trace n st f \<Longrightarrow>
     \<exists>st'. trace_bin_prod i j k A pr st = Inr st' \<and> sim_trace n st' (f_bin_prod i j k A pr f)"
  by (cases st)
     (auto simp: sim_trace_def trace_bin_prod_def f_bin_prod_def at2_dims dims_upd2 cells_insert,
      auto simp: cells_def)

lemma trace_bin_var_sim:
  "i < n \<Longrightarrow> j < n \<Longrightarrow> k < n \<Longrightarrow> k + 1 < n \<Longrightarrow> sim_trace n st f \<Longrightarrow>
     \<exists>st'. trace_bin_var G i j k A st = Inr st' \<and> sim_trace n st' (f_bin_var G i j k A f)"
  unfolding trace_bin_var_def f_bin_var_def
  by (rule foldE_sim [where R = "sim_trace n"]) (assumption, rule trace_bin_prod_sim, simp_all)

lemma trace_bin_split_sim:
  "i < n \<Longrightarrow> j < n \<Longrightarrow> k < n \<Longrightarrow> k + 1 < n \<Longrightarrow> sim_trace n st f \<Longrightarrow>
     \<exists>st'. trace_bin_split G i j k st = Inr st' \<and> sim_trace n st' (f_bin_split G i j k f)"
  unfolding trace_bin_split_def f_bin_split_def
  by (rule foldE_sim [where R = "sim_trace n"]) (assumption, rule trace_bin_var_sim, simp_all)

lemma trace_bin_cell_sim:
  "2 \<le> len \<Longrightarrow> i + len \<le> n \<Longrightarrow> sim_trace n st f \<Longrightarrow>
     \<exists>st'. trace_bin_cell G len i st = Inr st' \<and> sim_trace n st' (f_bin_cell G len i f)"
  unfolding trace_bin_cell_def f_bin_cell_def Let_def
  by (rule foldE_sim [where R = "sim_trace n"]) (assumption, rule trace_bin_split_sim, auto)

lemma trace_bin_len_sim:
  "2 \<le> len \<Longrightarrow> len \<le> n \<Longrightarrow> sim_trace n st f \<Longrightarrow>
     \<exists>st'. trace_bin_len G n len st = Inr st' \<and> sim_trace n st' (f_bin_len G n len f)"
  unfolding trace_bin_len_def f_bin_len_def
  by (rule foldE_sim [where R = "sim_trace n"]) (assumption, rule trace_bin_cell_sim, auto)

lemma trace_upper_loop_sim:
  "sim_trace n st f \<Longrightarrow>
     \<exists>st'. trace_upper_loop G n st = Inr st' \<and> sim_trace n st' (f_upper_loop G n f)"
  unfolding trace_upper_loop_def f_upper_loop_def
  by (rule foldE_sim [where R = "sim_trace n"]) (assumption, rule trace_bin_len_sim, auto)

lemma trace_fill_sim:
  assumes "length w = n" "sim_trace n st f"
  shows "\<exists>st'. trace_fill G w st = Inr st' \<and> sim_trace n st' (f_fill G w f)"
proof -
  from trace_diag_loop_sim [OF assms] obtain st1 where
    "trace_diag_loop G w st = Inr st1" "sim_trace n st1 (f_diag_loop G w f)" by blast
  with trace_upper_loop_sim [of n st1 _ G] assms(1) show ?thesis
    by (auto simp: trace_fill_def f_fill_def)
qed


lemma dims_replicate: "dims n (replicate n (replicate n v))"
  by (simp add: dims_def list_all_length)

lemma cells_init_table: "i < n \<Longrightarrow> j < n \<Longrightarrow> cells (init_table n) i j = {}"
  by (simp add: cells_def init_table_def)

lemma cykWithPointers_run:
  assumes "w \<noteq> []"
  shows "\<exists>t b. cykWithPointers w G =
            Inr \<lparr>cyk_result.accepted =
                   (startSymbol G \<in> f_fill G w (cells (init_table (length w))) 0 (length w - 1)),
                 table = t, backptrs = b\<rparr>
          \<and> dims (length w) t \<and> dims (length w) b
          \<and> cells t = f_fill G w (cells (init_table (length w)))"
proof -
  let ?n = "length w"
  have "sim_ptr ?n (init_table ?n, init_back ?n) (cells (init_table ?n))"
    by (simp add: sim_ptr_def init_table_def init_back_def dims_replicate)
  from cyk_fill_sim [OF refl this, of G] obtain t b where
    run: "cyk_fill G w (init_table ?n, init_back ?n) = Inr (t, b)"
    and sim: "sim_ptr ?n (t, b) (f_fill G w (cells (init_table ?n)))"
    by auto
  from sim have d: "dims ?n t" "dims ?n b" and c: "cells t = f_fill G w (cells (init_table ?n))"
    by (simp_all add: sim_ptr_def)
  from assms have pos: "0 < ?n" "?n - 1 < ?n" by simp_all
  have "has_start G ?n t = Inr (startSymbol G \<in> cells t 0 (?n - 1))"
    using at2_dims [OF d(1) pos] by (simp add: has_start_def cells_def)
  with run assms d c show ?thesis
    by (auto simp: cykWithPointers_def Let_def)
qed

lemma cykAlgorithm_run:
  assumes "w \<noteq> []"
  shows "\<exists>t ss. cykAlgorithm w G =
            Inr \<lparr>accepted =
                   (startSymbol G \<in> f_fill G w (cells (init_table (length w))) 0 (length w - 1)),
                 table = t, steps = ss\<rparr>
          \<and> dims (length w) t
          \<and> cells t = f_fill G w (cells (init_table (length w)))"
proof -
  let ?n = "length w"
  have "sim_trace ?n (init_table ?n, []) (cells (init_table ?n))"
    by (simp add: sim_trace_def init_table_def dims_replicate)
  from trace_fill_sim [OF refl this, of G] obtain t ss where
    run: "trace_fill G w (init_table ?n, []) = Inr (t, ss)"
    and sim: "sim_trace ?n (t, ss) (f_fill G w (cells (init_table ?n)))"
    by auto
  from sim have d: "dims ?n t" and c: "cells t = f_fill G w (cells (init_table ?n))"
    by (simp_all add: sim_trace_def)
  from assms have pos: "0 < ?n" "?n - 1 < ?n" by simp_all
  have "has_start G ?n t = Inr (startSymbol G \<in> cells t 0 (?n - 1))"
    using at2_dims [OF d(1) pos] by (simp add: has_start_def cells_def)
  with run assms d c show ?thesis
    by (auto simp: cykAlgorithm_def Let_def)
qed

lemma dims_cells_eq:
  assumes "dims n t" "dims n t'" "cells t = cells t'"
  shows "t = t'"
proof (rule nth_equalityI)
  show "length t = length t'" using assms by (simp add: dims_def)
next
  fix i assume i: "i < length t"
  with assms have l: "length (t ! i) = n" "length (t' ! i) = n"
    by (auto simp: dims_def list_all_length)
  show "t ! i = t' ! i"
  proof (rule nth_equalityI)
    show "length (t ! i) = length (t' ! i)" using l by simp
  next
    fix j assume "j < length (t ! i)"
    from assms(3) have "cells t i j = cells t' i j" by simp
    then show "t ! i ! j = t' ! i ! j" by (simp add: cells_def)
  qed
qed

section \<open>What the loops write\<close>

lemma cell_upd_apply:
  "cell_upd f i j S i' j' = (if i' = i \<and> j' = j then f i j \<union> S else f i' j')"
  by (simp add: cell_upd_def)

lemma cell_upd_twice: "cell_upd (cell_upd f i j S) i j S' = cell_upd f i j (S \<union> S')"
  by (auto simp: cell_upd_def fun_eq_iff)

lemma cell_upd_empty: "cell_upd f i j {} = f"
  by (auto simp: cell_upd_def fun_eq_iff)

lemma fold_cell_upd:
  assumes "\<And>x f. x \<in> set xs \<Longrightarrow> g x f = cell_upd f i j (S x f)"
    and "\<And>x f T. x \<in> set xs \<Longrightarrow> S x (cell_upd f i j T) = S x f"
  shows "fold g xs f = cell_upd f i j (\<Union>x \<in> set xs. S x f)"
  using assms
proof (induction xs arbitrary: f)
  case Nil
  then show ?case by (simp add: cell_upd_empty)
next
  case (Cons x xs)
  have gx: "g x f = cell_upd f i j (S x f)" by (simp add: Cons.prems(1))
  have "fold g xs (g x f) = cell_upd (g x f) i j (\<Union>y \<in> set xs. S y (g x f))"
    by (rule Cons.IH) (simp_all add: Cons.prems)
  also have "(\<Union>y \<in> set xs. S y (g x f)) = (\<Union>y \<in> set xs. S y f)"
    by (simp add: gx Cons.prems(2))
  finally show ?case
    by (simp add: gx cell_upd_twice)
qed

subsection \<open>The diagonal\<close>

lemma f_diag_var_eq:
  "f_diag_var G tok i A f =
     cell_upd f i i (if \<exists>pr \<in> set (obj_get (rules G) A). length pr = 1 \<and> pr ! 0 = tok then {A} else {})"
proof -
  have "f_diag_var G tok i A f =
      cell_upd f i i (\<Union>pr \<in> set (obj_get (rules G) A).
         (if length pr = 1 \<and> pr ! 0 = tok then {A} else {}))"
    unfolding f_diag_var_def
    by (rule fold_cell_upd) (simp_all add: f_diag_prod_def cell_upd_empty)
  also have "(\<Union>pr \<in> set (obj_get (rules G) A). (if length pr = 1 \<and> pr ! 0 = tok then {A} else {}))
      = (if \<exists>pr \<in> set (obj_get (rules G) A). length pr = 1 \<and> pr ! 0 = tok then {A} else {})"
    by auto
  finally show ?thesis .
qed

lemma f_diag_pos_eq: "f_diag_pos G w i f = cell_upd f i i (diag_set G (w ! i))"
proof -
  have "f_diag_pos G w i f =
      cell_upd f i i (\<Union>A \<in> set (object_keys (rules G)).
         (if \<exists>pr \<in> set (obj_get (rules G) A). length pr = 1 \<and> pr ! 0 = w ! i then {A} else {}))"
    unfolding f_diag_pos_def
    by (rule fold_cell_upd) (simp_all add: f_diag_var_eq)
  also have "(\<Union>A \<in> set (object_keys (rules G)).
         (if \<exists>pr \<in> set (obj_get (rules G) A). length pr = 1 \<and> pr ! 0 = w ! i then {A} else {}))
      = diag_set G (w ! i)"
    by (auto simp: diag_set_def split: if_splits)
  finally show ?thesis .
qed

lemma fold_diag_apply:
  "fold (f_diag_pos G w) xs f i j =
     (if i = j \<and> i \<in> set xs then f i i \<union> diag_set G (w ! i) else f i j)"
  by (induction xs arbitrary: f) (auto simp: f_diag_pos_eq cell_upd_apply)

lemma f_diag_loop_apply:
  "f_diag_loop G w f i j =
     (if i = j \<and> i < length w then f i i \<union> diag_set G (w ! i) else f i j)"
  by (simp add: f_diag_loop_def fold_diag_apply)

subsection \<open>One cell of the upper triangle\<close>

lemma bin_cond_cell_upd:
  "k \<noteq> j \<Longrightarrow> Suc k \<noteq> i \<Longrightarrow> bin_cond (cell_upd f i j T) i j k pr = bin_cond f i j k pr"
  by (simp add: bin_cond_def cell_upd_apply)

lemma f_bin_prod_eq:
  "f_bin_prod i j k A pr f = cell_upd f i j (if bin_cond f i j k pr then {A} else {})"
  by (simp add: f_bin_prod_def bin_cond_def cell_upd_empty)

lemma f_bin_var_eq:
  assumes "k \<noteq> j" "Suc k \<noteq> i"
  shows "f_bin_var G i j k A f =
     cell_upd f i j (if \<exists>pr \<in> set (obj_get (rules G) A). bin_cond f i j k pr then {A} else {})"
proof -
  have "f_bin_var G i j k A f =
      cell_upd f i j (\<Union>pr \<in> set (obj_get (rules G) A). (if bin_cond f i j k pr then {A} else {}))"
    unfolding f_bin_var_def
    by (rule fold_cell_upd) (simp_all add: f_bin_prod_eq bin_cond_cell_upd assms)
  also have "(\<Union>pr \<in> set (obj_get (rules G) A). (if bin_cond f i j k pr then {A} else {}))
      = (if \<exists>pr \<in> set (obj_get (rules G) A). bin_cond f i j k pr then {A} else {})"
    by auto
  finally show ?thesis .
qed

lemma f_bin_split_eq:
  assumes "k \<noteq> j" "Suc k \<noteq> i"
  shows "f_bin_split G i j k f =
     cell_upd f i j {A \<in> set (object_keys (rules G)).
                      \<exists>pr \<in> set (obj_get (rules G) A). bin_cond f i j k pr}"
proof -
  have "f_bin_split G i j k f =
      cell_upd f i j (\<Union>A \<in> set (object_keys (rules G)).
        (if \<exists>pr \<in> set (obj_get (rules G) A). bin_cond f i j k pr then {A} else {}))"
    unfolding f_bin_split_def
    by (rule fold_cell_upd) (simp_all add: f_bin_var_eq bin_cond_cell_upd assms)
  also have "(\<Union>A \<in> set (object_keys (rules G)).
        (if \<exists>pr \<in> set (obj_get (rules G) A). bin_cond f i j k pr then {A} else {}))
      = {A \<in> set (object_keys (rules G)). \<exists>pr \<in> set (obj_get (rules G) A). bin_cond f i j k pr}"
    by (auto split: if_splits)
  finally show ?thesis .
qed

lemma f_bin_cell_eq: "f_bin_cell G len i f = cell_upd f i (i + len - 1) (new_set G f i (i + len - 1))"
proof -
  let ?j = "i + len - 1"
  have "f_bin_cell G len i f =
      cell_upd f i ?j (\<Union>k \<in> set [i ..< ?j].
        {A \<in> set (object_keys (rules G)). \<exists>pr \<in> set (obj_get (rules G) A). bin_cond f i ?j k pr})"
    unfolding f_bin_cell_def
    by (rule fold_cell_upd) (simp_all add: f_bin_split_eq bin_cond_cell_upd)
  also have "(\<Union>k \<in> set [i ..< ?j].
        {A \<in> set (object_keys (rules G)). \<exists>pr \<in> set (obj_get (rules G) A). bin_cond f i ?j k pr})
      = new_set G f i ?j"
    by (auto simp: new_set_def)
  finally show ?thesis .
qed


subsection \<open>The passes over one length and over all lengths\<close>

lemma new_set_cong:
  assumes "\<And>k. i \<le> k \<Longrightarrow> k < j \<Longrightarrow> f i k = g i k \<and> f (k + 1) j = g (k + 1) j"
  shows "new_set G f i j = new_set G g i j"
  using assms by (auto simp: new_set_def bin_cond_def)

lemma new_set_cell_upd:
  "2 \<le> len \<Longrightarrow> new_set G (cell_upd f x (x + len - 1) T) i (i + len - 1) = new_set G f i (i + len - 1)"
  by (rule new_set_cong) (auto simp: cell_upd_apply)

lemma fold_bin_cell_apply:
  assumes "2 \<le> len"
  shows "fold (f_bin_cell G len) xs f i j =
     (if i \<in> set xs \<and> j = i + len - 1 then f i j \<union> new_set G f i j else f i j)"
proof (induction xs arbitrary: f)
  case Nil
  then show ?case by simp
next
  case (Cons x xs)
  let ?g = "cell_upd f x (x + len - 1) (new_set G f x (x + len - 1))"
  have "fold (f_bin_cell G len) (x # xs) f i j = fold (f_bin_cell G len) xs ?g i j"
    by (simp add: f_bin_cell_eq)
  also have "\<dots> = (if i \<in> set xs \<and> j = i + len - 1 then ?g i j \<union> new_set G ?g i j else ?g i j)"
    by (rule Cons.IH)
  also have "\<dots> = (if i \<in> set (x # xs) \<and> j = i + len - 1 then f i j \<union> new_set G f i j else f i j)"
    using assms new_set_cell_upd [OF assms, of G f x _ i] by (auto simp: cell_upd_apply)
  finally show ?case .
qed

lemma f_bin_len_apply:
  "2 \<le> len \<Longrightarrow> f_bin_len G n len f i j =
     (if i + len \<le> n \<and> j = i + len - 1 then f i j \<union> new_set G f i j else f i j)"
  by (auto simp: f_bin_len_def fold_bin_cell_apply)

lemma fold_bin_len_frame:
  "\<forall>len \<in> set ls. 2 \<le> len \<Longrightarrow> \<not> (i < j \<and> j < n) \<Longrightarrow> fold (f_bin_len G n) ls f i j = f i j"
proof (induction ls arbitrary: f)
  case Nil
  then show ?case by simp
next
  case (Cons len ls)
  then have "fold (f_bin_len G n) ls (f_bin_len G n len f) i j = f_bin_len G n len f i j"
    by simp
  also have "\<dots> = f i j"
    using Cons.prems by (auto simp: f_bin_len_apply)
  finally show ?case by simp
qed

lemma f_fill_frame:
  assumes "\<not> (i \<le> j \<and> j < length w)"
  shows "f_fill G w f i j = f i j"
proof -
  have "f_fill G w f i j = f_diag_loop G w f i j"
    unfolding f_fill_def f_upper_loop_def
    by (rule fold_bin_len_frame) (use assms in auto)
  also have "\<dots> = f i j"
    using assms by (auto simp: f_diag_loop_apply)
  finally show ?thesis .
qed

lemma new_set_agree: "agree n f g \<Longrightarrow> j < n \<Longrightarrow> new_set G f i j = new_set G g i j"
  by (rule new_set_cong) (simp add: agree_def)

lemma f_bin_len_agree:
  assumes "2 \<le> len" "agree n f g"
  shows "agree n (f_bin_len G n len f) (f_bin_len G n len g)"
  unfolding agree_def
proof (intro allI impI)
  fix i j assume "i \<le> j" "j < n"
  with assms(2) have "f i j = g i j" "new_set G f i j = new_set G g i j"
    by (simp_all add: agree_def new_set_agree)
  then show "f_bin_len G n len f i j = f_bin_len G n len g i j"
    unfolding f_bin_len_apply [OF assms(1)] by presburger
qed

lemma fold_bin_len_agree:
  "\<forall>len \<in> set ls. 2 \<le> len \<Longrightarrow> agree n f g \<Longrightarrow>
     agree n (fold (f_bin_len G n) ls f) (fold (f_bin_len G n) ls g)"
  by (induction ls arbitrary: f g) (simp_all add: f_bin_len_agree)

lemma f_diag_loop_agree:
  "agree (length w) f g \<Longrightarrow> agree (length w) (f_diag_loop G w f) (f_diag_loop G w g)"
  by (simp add: agree_def f_diag_loop_apply)

lemma f_fill_agree: "agree (length w) f g \<Longrightarrow> agree (length w) (f_fill G w f) (f_fill G w g)"
  unfolding f_fill_def f_upper_loop_def
  by (rule fold_bin_len_agree) (auto simp: f_diag_loop_agree)
section \<open>Rewriting, derivation trees and the table\<close>

subsection \<open>Own keys\<close>

lemma set_object_keys: "set (object_keys obj) = fst ` set obj"
  by (auto simp: object_keys_def Let_def)

lemma obj_get_key: "pr \<in> set (obj_get obj A) \<Longrightarrow> A \<in> set (object_keys obj)"
proof -
  assume "pr \<in> set (obj_get obj A)"
  then obtain v where "map_of obj A = Some v"
    by (cases "map_of obj A") (auto simp: obj_get_def)
  then have "(A, v) \<in> set obj" by (rule map_of_SomeD)
  then have "A \<in> fst ` set obj" by force
  then show ?thesis by (simp add: set_object_keys)
qed

subsection \<open>Rewriting and derivation trees\<close>

lemma step_context: "step G \<alpha> \<beta> \<Longrightarrow> step G (x @ \<alpha> @ y) (x @ \<beta> @ y)"
proof (induction rule: step.induct)
  case (rewrite pr A u v)
  from step.rewrite [OF rewrite, of "x @ u" "v @ y"] show ?case by simp
qed

lemma steps_context:
  "rtranclp (step G) \<alpha> \<beta> \<Longrightarrow> rtranclp (step G) (x @ \<alpha> @ y) (x @ \<beta> @ y)"
  by (induction rule: rtranclp_induct) (auto intro: rtranclp.rtrancl_into_rtrancl step_context)

lemma derives_steps: "derives G A w \<Longrightarrow> rtranclp (step G) [Var A] (map Tok w)"
proof (induction rule: derives.induct)
  case (leaf a A)
  from step.rewrite [OF leaf, of "[]" "[]"] show ?case
    by (simp add: rhs_form_def)
next
  case (branch B C A u v)
  from step.rewrite [OF branch(1), of "[]" "[]"]
  have "step G [Var A] [Var B, Var C]" by (simp add: rhs_form_def)
  moreover from steps_context [OF branch(4), of "[]" "[Var C]"]
  have "rtranclp (step G) [Var B, Var C] (map Tok u @ [Var C])" by simp
  moreover from steps_context [OF branch(5), of "map Tok u" "[]"]
  have "rtranclp (step G) (map Tok u @ [Var C]) (map Tok u @ map Tok v)" by simp
  ultimately show ?case by simp
qed

lemma dform_toks: "dform G (map Tok w) w"
  by (induction w) (auto intro: dform.intros)

lemma dform_append:
  "dform G (\<alpha> @ \<beta>) w \<longleftrightarrow> (\<exists>u v. w = u @ v \<and> dform G \<alpha> u \<and> dform G \<beta> v)"
proof (induction \<alpha> arbitrary: w)
  case Nil
  show ?case by (auto intro: dform.intros elim: dform.cases)
next
  case (Cons s \<alpha>)
  show ?case
  proof
    assume "dform G ((s # \<alpha>) @ \<beta>) w"
    then have "dform G (s # (\<alpha> @ \<beta>)) w" by simp
    then show "\<exists>u v. w = u @ v \<and> dform G (s # \<alpha>) u \<and> dform G \<beta> v"
    proof (cases rule: dform.cases)
      case (dtok w' a)
      with Cons.IH [of w'] obtain u v where "w' = u @ v" "dform G \<alpha> u" "dform G \<beta> v" by auto
      with dtok have "w = (a # u) @ v \<and> dform G (s # \<alpha>) (a # u) \<and> dform G \<beta> v"
        by (auto intro: dform.intros)
      then show ?thesis by blast
    next
      case (dvar A x w')
      with Cons.IH [of w'] obtain u v where "w' = u @ v" "dform G \<alpha> u" "dform G \<beta> v" by auto
      with dvar have "w = (x @ u) @ v \<and> dform G (s # \<alpha>) (x @ u) \<and> dform G \<beta> v"
        by (auto intro: dform.intros)
      then show ?thesis by blast
    qed
  next
    assume "\<exists>u v. w = u @ v \<and> dform G (s # \<alpha>) u \<and> dform G \<beta> v"
    then obtain u v where w: "w = u @ v" and u: "dform G (s # \<alpha>) u" and v: "dform G \<beta> v"
      by blast
    from u show "dform G ((s # \<alpha>) @ \<beta>) w"
    proof (cases rule: dform.cases)
      case (dtok u' a)
      with v Cons.IH [of "u' @ v"] have "dform G (\<alpha> @ \<beta>) (u' @ v)" by blast
      with dtok w show ?thesis by (auto intro: dform.intros)
    next
      case (dvar A x u')
      with v Cons.IH [of "u' @ v"] have "dform G (\<alpha> @ \<beta>) (u' @ v)" by blast
      with dvar w dform.dvar [of G A x "\<alpha> @ \<beta>" "u' @ v"] show ?thesis by simp
    qed
  qed
qed

lemma dform_single_var: "dform G [Var A] w \<longleftrightarrow> derives G A w"
  by (auto intro: dform.intros elim!: dform.cases) (metis append_Nil2 dform.dnil dform.dvar)

lemma cnf_prod: "cnf G \<Longrightarrow> pr \<in> set (obj_get (rules G) A) \<Longrightarrow> length pr = 1 \<or> length pr = 2"
  by (frule obj_get_key) (auto simp: cnf_def list_all_iff)

lemma dform_rhs:
  assumes "cnf G" "pr \<in> set (obj_get (rules G) A)" "dform G (rhs_form pr) w"
  shows "derives G A w"
proof -
  from cnf_prod [OF assms(1,2)] consider "length pr = 1" | "length pr = 2" by blast
  then show ?thesis
  proof cases
    case 1
    then obtain a where pr: "pr = [a]" by (cases pr) auto
    with assms(3) have "w = [a]" by (auto simp: rhs_form_def elim!: dform.cases)
    with pr assms(2) show ?thesis by (auto intro: derives.leaf)
  next
    case 2
    then obtain B C where pr: "pr = [B, C]"
      by (cases pr) (auto simp: length_Suc_conv)
    with assms(3) have "dform G [Var B, Var C] w" by (simp add: rhs_form_def)
    then have "dform G ([Var B] @ [Var C]) w" by simp
    then obtain u v where "w = u @ v" "derives G B u" "derives G C v"
      unfolding dform_append dform_single_var by blast
    with pr assms(2) show ?thesis by (auto intro: derives.branch)
  qed
qed

lemma step_dform:
  assumes "cnf G" "step G \<alpha> \<beta>" "dform G \<beta> w"
  shows "dform G \<alpha> w"
  using assms(2)
proof (cases rule: step.cases)
  case (rewrite pr A u v)
  with assms(3) obtain x y z where w: "w = x @ y @ z"
    and x: "dform G u x" and y: "dform G (rhs_form pr) y" and z: "dform G v z"
    by (auto simp: dform_append)
  from dform_rhs [OF assms(1) rewrite(3) y] have "dform G [Var A] y"
    by (simp add: dform_single_var)
  with z have "dform G ([Var A] @ v) (y @ z)"
    unfolding dform_append by blast
  with x have "dform G (u @ [Var A] @ v) (x @ y @ z)"
    unfolding dform_append [of G u] by blast
  with w rewrite show ?thesis by simp
qed

lemma steps_dform:
  assumes "cnf G" "rtranclp (step G) \<alpha> \<beta>" "dform G \<beta> w"
  shows "dform G \<alpha> w"
  using assms(2,3)
  by (induction rule: converse_rtranclp_induct) (auto intro: step_dform [OF assms(1)])

lemma generates_derives: "cnf G \<Longrightarrow> generates G w \<longleftrightarrow> derives G (startSymbol G) w"
  unfolding generates_def
  using steps_dform [of G "[Var (startSymbol G)]" "map Tok w" w] derives_steps [of G "startSymbol G" w]
  by (auto simp: dform_single_var dform_toks)


subsection \<open>The table holds the variables that derive each span\<close>

lemma derives_nonempty: "derives G A w \<Longrightarrow> w \<noteq> []"
  by (induction rule: derives.induct) auto

lemma derives_single: "derives G A [a] \<longleftrightarrow> [a] \<in> set (obj_get (rules G) A)"
proof
  assume "derives G A [a]"
  then show "[a] \<in> set (obj_get (rules G) A)"
  proof (cases rule: derives.cases)
    case leaf
    then show ?thesis by simp
  next
    case (branch B C u v)
    from branch(3,4) have "u \<noteq> []" "v \<noteq> []" by (auto dest: derives_nonempty)
    with branch(1) show ?thesis by (cases u; cases v) auto
  qed
qed (rule derives.leaf)

lemma singleton_prod: "length pr = 1 \<and> pr ! 0 = tok \<longleftrightarrow> pr = [tok]"
  by (cases pr) auto

lemma pair_prod: "length pr = 2 \<Longrightarrow> pr = [pr ! 0, pr ! 1]"
  by (cases pr) (auto simp: length_Suc_conv)

lemma diag_set_D:
  assumes "i < length w"
  shows "diag_set G (w ! i) = D G w i i"
proof -
  from assms have "take (Suc i - i) (drop i w) = [w ! i]"
    by (simp add: take_Suc_conv_app_nth hd_drop_conv_nth take_Suc)
  then have "D G w i i = {A. [w ! i] \<in> set (obj_get (rules G) A)}"
    by (simp add: D_def derives_single)
  also have "\<dots> = diag_set G (w ! i)"
    unfolding diag_set_def singleton_prod by (auto dest: obj_get_key)
  finally show ?thesis by simp
qed

lemma span_split:
  assumes "i \<le> k" "k < j"
  shows "take (Suc j - i) (drop i w) = take (Suc k - i) (drop i w) @ take (Suc j - Suc k) (drop (Suc k) w)"
proof -
  from assms have "Suc j - i = (Suc k - i) + (Suc j - Suc k)" by simp
  then have "take (Suc j - i) (drop i w)
      = take (Suc k - i) (drop i w) @ take (Suc j - Suc k) (drop (Suc k - i) (drop i w))"
    by (simp only: take_add)
  with assms show ?thesis by simp
qed

lemma new_set_D:
  assumes "i < j" "j < length w"
  shows "new_set G (D G w) i j = D G w i j"
proof (intro set_eqI iffI)
  fix A assume "A \<in> new_set G (D G w) i j"
  then obtain k pr where k: "i \<le> k" "k < j" and pr: "pr \<in> set (obj_get (rules G) A)"
    and c: "length pr = 2" "pr ! 0 \<in> D G w i k" "pr ! 1 \<in> D G w (k + 1) j"
    by (auto simp: new_set_def bin_cond_def)
  from pair_prod [OF c(1)] pr have "[pr ! 0, pr ! 1] \<in> set (obj_get (rules G) A)" by simp
  from derives.branch [OF this] c(2,3)
  have "derives G A (take (Suc k - i) (drop i w) @ take (Suc j - Suc k) (drop (Suc k) w))"
    by (simp add: D_def)
  then show "A \<in> D G w i j"
    by (simp add: D_def span_split [OF k])
next
  fix A assume "A \<in> D G w i j"
  then have d: "derives G A (take (Suc j - i) (drop i w))" by (simp add: D_def)
  from assms have len: "length (take (Suc j - i) (drop i w)) = Suc j - i" by simp
  from d show "A \<in> new_set G (D G w) i j"
  proof (cases rule: derives.cases)
    case (leaf a)
    with len have "Suc j - i = 1" by simp
    with assms show ?thesis by simp
  next
    case (branch B C u v)
    from branch(3,4) have ne: "u \<noteq> []" "v \<noteq> []" by (auto dest: derives_nonempty)
    define k where "k = i + length u - 1"
    from branch(1) len have sum: "length u + length v = Suc j - i"
      by (metis length_append)
    with ne have k: "i \<le> k" "k < j" "Suc k - i = length u"
      by (auto simp: k_def) (cases u; cases v; simp)+
    from branch(1) span_split [OF k(1,2), of w]
    have "u @ v = take (Suc k - i) (drop i w) @ take (Suc j - Suc k) (drop (Suc k) w)"
      by simp
    moreover have "length (take (Suc k - i) (drop i w)) = length u"
      using k assms by simp
    ultimately have "u = take (Suc k - i) (drop i w)" "v = take (Suc j - Suc k) (drop (Suc k) w)"
      by (simp_all add: append_eq_append_conv)
    with branch(3,4) have "B \<in> D G w i k" "C \<in> D G w (k + 1) j"
      by (simp_all add: D_def)
    with branch(2) k have "\<exists>k \<in> {i ..< j}. \<exists>pr \<in> set (obj_get (rules G) A). bin_cond (D G w) i j k pr"
      by (intro bexI [of _ k] bexI [of _ "[B, C]"]) (simp_all add: bin_cond_def)
    with branch(2) show ?thesis
      by (auto simp: new_set_def dest: obj_get_key)
  qed
qed

lemma upper_inv:
  assumes f0: "\<And>i j. i \<le> j \<Longrightarrow> j < length w \<Longrightarrow> f0 i j = (if i = j then D G w i i else {})"
    and "1 \<le> L" "i \<le> j" "j < length w"
  shows "fold (f_bin_len G (length w)) [2 ..< Suc L] f0 i j = (if j - i < L then D G w i j else {})"
  using assms(2-)
proof (induction L arbitrary: i j rule: nat_induct_at_least)
  case base
  then show ?case by (auto simp: f0)
next
  case (Suc L)
  define g where "g = fold (f_bin_len G (length w)) [2 ..< Suc L] f0"
  have g: "\<And>i j. i \<le> j \<Longrightarrow> j < length w \<Longrightarrow> g i j = (if j - i < L then D G w i j else {})"
    unfolding g_def by (rule Suc.IH)
  from Suc.hyps have "[2 ..< Suc (Suc L)] = [2 ..< Suc L] @ [Suc L]" by simp
  then have "fold (f_bin_len G (length w)) [2 ..< Suc (Suc L)] f0 i j
      = f_bin_len G (length w) (Suc L) g i j"
    by (simp add: g_def)
  also have "\<dots> = (if i + Suc L \<le> length w \<and> j = i + Suc L - 1
                    then g i j \<union> new_set G g i j else g i j)"
    by (rule f_bin_len_apply) (use Suc.hyps in simp)
  also have "\<dots> = (if j - i < Suc L then D G w i j else {})"
  proof (cases "j = i + L")
    case True
    have "new_set G g i j = new_set G (D G w) i j"
    proof (rule new_set_cong)
      fix k assume "i \<le> k" "k < j"
      with True Suc.prems show "g i k = D G w i k \<and> g (k + 1) j = D G w (k + 1) j"
        by (auto simp: g)
    qed
    also have "\<dots> = D G w i j"
      by (rule new_set_D) (use True Suc.hyps Suc.prems in simp_all)
    finally show ?thesis
      using True Suc.prems by (simp add: g)
  next
    case False
    with Suc.prems show ?thesis by (auto simp: g)
  qed
  finally show ?case .
qed

lemma f_fill_D:
  assumes f0: "\<And>i j. i \<le> j \<Longrightarrow> j < length w \<Longrightarrow> f0 i j = {}"
    and "i \<le> j" "j < length w"
  shows "f_fill G w f0 i j = D G w i j"
proof -
  have "f_fill G w f0 i j
      = fold (f_bin_len G (length w)) [2 ..< Suc (length w)] (f_diag_loop G w f0) i j"
    by (simp add: f_fill_def f_upper_loop_def)
  also have "\<dots> = (if j - i < length w then D G w i j else {})"
  proof (rule upper_inv)
    fix i j assume "i \<le> j" "j < length w"
    then show "f_diag_loop G w f0 i j = (if i = j then D G w i i else {})"
      by (simp add: f_diag_loop_apply f0 diag_set_D)
  qed (use assms in simp_all)
  also have "\<dots> = D G w i j" using assms(2,3) by auto
  finally show ?thesis .
qed
section \<open>Splitting at white space\<close>

lemma ws_words_Nil: "ws_words [] = []"
  by (subst ws_words.simps) simp

lemma ws_words_all_ws: "\<forall>c \<in> set s. is_ws c \<Longrightarrow> ws_words s = []"
  by (subst ws_words.simps) simp

lemma split_ws_words:
  "s \<noteq> [] \<Longrightarrow> non_ws (hd s) \<Longrightarrow> non_ws (last s) \<Longrightarrow> split_ws s = ws_words s"
proof (induction s rule: split_ws.induct)
  case (1 s)
  let ?w = "takeWhile non_ws s" and ?r = "dropWhile non_ws s"
  from 1(2,3) have ds: "dropWhile is_ws s = s"
    by (cases s) (simp_all add: non_ws_def)
  show ?case
  proof (cases "?r = []")
    case True
    then have tw: "takeWhile non_ws s = s"
      by (metis takeWhile_dropWhile_id append_Nil2)
    have "split_ws s = [s]"
      using True tw by (subst split_ws.simps) (simp add: Let_def)
    moreover have wn: "ws_words (dropWhile non_ws s) = []"
      by (simp only: True ws_words_Nil)
    have "ws_words s = [s]"
      using 1(2) tw by (subst ws_words.simps) (simp add: ds Let_def wn)
    ultimately show ?thesis by simp
  next
    case False
    let ?r' = "dropWhile is_ws ?r"
    have s: "s = ?w @ ?r" by simp
    from False have lr: "last ?r = last s"
      by (metis s last_appendR)
    from False 1(4) lr have nall: "\<not> (\<forall>c \<in> set ?r. is_ws c)"
      by (metis last_in_set non_ws_def)
    then have ne': "?r' \<noteq> []" by (simp add: dropWhile_eq_Nil_conv)
    then have hd': "non_ws (hd ?r')"
      using hd_dropWhile [of is_ws ?r] by (simp add: non_ws_def)
    from ne' have "last ?r' = last ?r"
      by (metis takeWhile_dropWhile_id last_appendR)
    with lr 1(4) have last': "non_ws (last ?r')" by simp
    have IH: "split_ws ?r' = ws_words ?r'"
      by (rule 1(1) [OF refl False ne' hd' last'])
    have "split_ws s = ?w # split_ws ?r'"
      using False by (subst split_ws.simps) (auto simp: Let_def)
    moreover have "ws_words s = ?w # ws_words ?r"
      using 1(2) by (subst ws_words.simps) (simp add: ds Let_def)
    ultimately show ?thesis
      by (simp add: IH ws_words_dropWhile)
  qed
qed

lemma ws_words_append_ws:
  "\<forall>c \<in> set t. is_ws c \<Longrightarrow> ws_words (s @ t) = ws_words s"
proof (induction s rule: ws_words.induct)
  case (1 s)
  let ?r = "dropWhile is_ws s"
  show ?case
  proof (cases "?r = []")
    case True
    then have "\<forall>c \<in> set s. is_ws c" by (simp add: dropWhile_eq_Nil_conv)
    with 1(2) have "\<forall>c \<in> set (s @ t). is_ws c" by auto
    then have "ws_words (s @ t) = []" by (rule ws_words_all_ws)
    moreover from True have "ws_words s = []" by (subst ws_words.simps) simp
    ultimately show ?thesis by simp
  next
    case False
    then obtain c where c: "c \<in> set s" "\<not> is_ws c"
      by (auto simp: dropWhile_eq_Nil_conv)
    then have dw: "dropWhile is_ws (s @ t) = ?r @ t"
      by (simp add: dropWhile_append1)
    from False have hd: "non_ws (hd ?r)"
      using hd_dropWhile [of is_ws s] by (simp add: non_ws_def)
    show ?thesis
    proof (cases "dropWhile non_ws ?r = []")
      case True
      then have allr: "\<forall>c \<in> set ?r. non_ws c" by (simp add: dropWhile_eq_Nil_conv)
      then have a: "takeWhile non_ws (?r @ t) = ?r @ takeWhile non_ws t"
        "dropWhile non_ws (?r @ t) = dropWhile non_ws t"
        by (simp_all add: takeWhile_append2 dropWhile_append2)
      from 1(2) have b: "takeWhile non_ws t = []" "\<forall>c \<in> set (dropWhile non_ws t). is_ws c"
        by (cases t; simp add: non_ws_def)
           (metis "1.prems" in_set_conv_decomp set_dropWhileD)
      have "ws_words (s @ t) = ?r # ws_words (dropWhile non_ws t)"
        using False by (subst ws_words.simps) (simp add: dw a b Let_def)
      also have "ws_words (dropWhile non_ws t) = []"
        by (rule ws_words_all_ws) (rule b(2))
      finally have l: "ws_words (s @ t) = [?r]" .
      from allr have "takeWhile non_ws ?r = ?r" by (simp add: takeWhile_eq_all_conv)
      moreover have wn: "ws_words (dropWhile non_ws ?r) = []"
        by (simp only: True ws_words_Nil)
      ultimately have "ws_words s = [?r]"
        using False by (subst ws_words.simps) (simp add: Let_def)
      with l show ?thesis by simp
    next
      case F2: False
      then obtain d where d: "d \<in> set ?r" "\<not> non_ws d"
        by (auto simp: dropWhile_eq_Nil_conv)
      then have a: "takeWhile non_ws (?r @ t) = takeWhile non_ws ?r"
        "dropWhile non_ws (?r @ t) = dropWhile non_ws ?r @ t"
        by (simp_all add: takeWhile_append1 dropWhile_append1)
      have "ws_words (s @ t) = takeWhile non_ws ?r # ws_words (dropWhile non_ws ?r @ t)"
        using False by (subst ws_words.simps) (simp add: dw a Let_def)
      also have "ws_words (dropWhile non_ws ?r @ t) = ws_words (dropWhile non_ws ?r)"
        by (rule 1(1) [OF refl False 1(2)])
      also have "takeWhile non_ws ?r # ws_words (dropWhile non_ws ?r) = ws_words s"
        using False by (subst (2) ws_words.simps) (simp add: Let_def)
      finally show ?thesis .
    qed
  qed
qed

lemma ws_words_trim: "ws_words (trim s) = ws_words s"
proof -
  let ?d = "dropWhile is_ws s"
  have "?d = rev (dropWhile is_ws (rev ?d)) @ rev (takeWhile is_ws (rev ?d))"
    by (metis rev_append rev_rev_ident takeWhile_dropWhile_id)
  moreover have "\<forall>c \<in> set (rev (takeWhile is_ws (rev ?d))). is_ws c"
    by (auto dest: set_takeWhileD)
  ultimately have "ws_words ?d = ws_words (rev (dropWhile is_ws (rev ?d)))"
    by (metis ws_words_append_ws)
  then show ?thesis by (simp add: trim_def ws_words_dropWhile)
qed

lemma trim_ends:
  assumes "\<exists>c \<in> set s. non_ws c"
  shows "trim s \<noteq> [] \<and> non_ws (hd (trim s)) \<and> non_ws (last (trim s))"
proof -
  let ?d = "dropWhile is_ws s"
  from assms have ne: "?d \<noteq> []" by (auto simp: dropWhile_eq_Nil_conv non_ws_def)
  then have hd: "non_ws (hd ?d)" using hd_dropWhile [of is_ws s] by (simp add: non_ws_def)
  let ?e = "dropWhile is_ws (rev ?d)"
  from ne hd have "hd ?d \<in> set (rev ?d)" by simp
  with hd have ne2: "?e \<noteq> []" by (auto simp: dropWhile_eq_Nil_conv non_ws_def)
  then have hd2: "non_ws (hd ?e)" using hd_dropWhile [of is_ws "rev ?d"] by (simp add: non_ws_def)
  have t: "trim s = rev ?e" by (simp add: trim_def)
  from ne2 hd2 have last: "non_ws (last (trim s))" by (simp add: t last_rev)
  have "rev ?d = takeWhile is_ws (rev ?d) @ ?e" by simp
  then have "?d = rev ?e @ rev (takeWhile is_ws (rev ?d))"
    by (metis rev_append rev_rev_ident)
  with ne2 have "hd ?d = hd (rev ?e)" by (metis hd_append2 rev_is_Nil_conv)
  with hd ne2 show ?thesis by (simp add: t last [unfolded t])
qed

lemma trim_no_ws: "\<forall>c \<in> set s. non_ws c \<Longrightarrow> trim s = s"
proof -
  assume a: "\<forall>c \<in> set s. non_ws c"
  then have "dropWhile is_ws s = s" by (cases s) (simp_all add: non_ws_def)
  moreover from a have "dropWhile is_ws (rev s) = rev s"
    by (cases "rev s") (auto simp: non_ws_def) 
  ultimately show ?thesis by (simp add: trim_def)
qed
lemma trim_all_ws: "\<forall>c \<in> set s. is_ws c \<Longrightarrow> trim s = []"
proof -
  assume "\<forall>c \<in> set s. is_ws c"
  then have "dropWhile is_ws s = []" by (metis dropWhile_eq_Nil_conv)
  then show ?thesis by (simp only: trim_def rev.simps dropWhile.simps)
qed

lemma split_ws_Nil: "split_ws [] = [[]]"
  by (subst split_ws.simps) simp

section \<open>Cutting a line at its arrow, and the start symbol\<close>






subsection \<open>The start symbol\<close>

lemma rules_push_start: "rules_push left p st = Inr st' \<Longrightarrow> ps_startSymbol st' = ps_startSymbol st"
  by (auto simp: rules_push_def split: option.splits)

lemma add_production_start:
  "add_production left pr st = Inr st' \<Longrightarrow> ps_startSymbol st' = ps_startSymbol st"
  by (auto simp: add_production_def Let_def split: option.splits if_splits
      dest!: rules_push_start)

lemma foldE_preserves:
  assumes "\<And>x s s'. x \<in> set xs \<Longrightarrow> f x s = Inr s' \<Longrightarrow> h s' = h s"
    and "foldE f xs s = Inr s'"
  shows "h s' = h s"
  using assms
proof (induction xs arbitrary: s)
  case Nil
  then show ?case by simp
next
  case (Cons x xs)
  from Cons.prems(2) obtain s1 where s1: "f x s = Inr s1" "foldE f xs s1 = Inr s'"
    by (cases "f x s") simp_all
  from Cons.prems(1) [OF _ s1(1)] have "h s1 = h s" by simp
  moreover have "h s' = h s1"
    by (rule Cons.IH [OF _ s1(2)]) (erule Cons.prems(1) [rotated], simp)
  ultimately show ?case by simp
qed

lemma process_line_start:
  assumes "process_line (idx, line) st = Inr st'"
  shows "ps_startSymbol st' =
     (case arrow_split line of
        None \<Rightarrow> ps_startSymbol st
      | Some (left, right) \<Rightarrow> if idx = 0 \<and> left \<noteq> [] then left else ps_startSymbol st)"
proof (cases "arrow_split line")
  case None
  with assms show ?thesis by (simp add: process_line_def)
next
  case (Some lr)
  obtain left right where lr: "lr = (left, right)" by (cases lr)
  let ?st1 = "if idx = 0 \<and> left \<noteq> [] then st\<lparr>ps_startSymbol := left\<rparr> else st"
  let ?st3 = "?st1\<lparr>ps_rules := rules_init (ps_rules ?st1) left,
                   ps_variablesSet := set_add (ps_variablesSet ?st1) left\<rparr>"
  from assms Some lr have "foldE (add_production left) (map trim (split_on 124 right)) ?st3 = Inr st'"
    by (simp add: process_line_def Let_def)
  then have "ps_startSymbol st' = ps_startSymbol ?st3"
  proof (rule foldE_preserves [where h = ps_startSymbol, rotated])
    fix x s s' assume "add_production left x s = Inr s'"
    then show "ps_startSymbol s' = ps_startSymbol s" by (rule add_production_start)
  qed
  with Some lr show ?thesis by simp
qed

lemma later_lines_start:
  assumes "foldE process_line ils st = Inr st'" "\<forall>il \<in> set ils. fst il \<noteq> 0"
  shows "ps_startSymbol st' = ps_startSymbol st"
proof (rule foldE_preserves [OF _ assms(1)])
  fix il s s' assume "il \<in> set ils" "process_line il s = Inr s'"
  with assms(2) process_line_start [of "fst il" "snd il" s s']
  show "ps_startSymbol s' = ps_startSymbol s"
    by (auto split: option.splits)
qed



section \<open>Acceptance as derivability, for every grammar\<close>

lemma cykWithPointers_derives:
  assumes "w \<noteq> []"
  shows "\<exists>r. cykWithPointers w G = Inr r
           \<and> (cyk_result.accepted r \<longleftrightarrow> derives G (startSymbol G) w)"
proof -
  let ?n = "length w"
  from cykWithPointers_run [OF assms, of G] obtain t b where
    run: "cykWithPointers w G =
          Inr \<lparr>cyk_result.accepted =
                 (startSymbol G \<in> f_fill G w (cells (init_table ?n)) 0 (?n - 1)),
               table = t, backptrs = b\<rparr>"
    by blast
  from assms have "f_fill G w (cells (init_table ?n)) 0 (?n - 1) = D G w 0 (?n - 1)"
    by (intro f_fill_D) (simp_all add: cells_init_table)
  also from assms have "\<dots> = {A. derives G A w}"
    by (simp add: D_def)
  finally show ?thesis
    using run by simp
qed

lemma cykAlgorithm_derives:
  assumes "w \<noteq> []"
  shows "\<exists>r. cykAlgorithm w G = Inr r \<and> (accepted r \<longleftrightarrow> derives G (startSymbol G) w)"
proof -
  let ?n = "length w"
  from cykAlgorithm_run [OF assms, of G] obtain t ss where
    run: "cykAlgorithm w G =
          Inr \<lparr>accepted =
                 (startSymbol G \<in> f_fill G w (cells (init_table ?n)) 0 (?n - 1)),
               table = t, steps = ss\<rparr>"
    by blast
  from assms have "f_fill G w (cells (init_table ?n)) 0 (?n - 1) = D G w 0 (?n - 1)"
    by (intro f_fill_D) (simp_all add: cells_init_table)
  also from assms have "\<dots> = {A. derives G A w}"
    by (simp add: D_def)
  finally show ?thesis
    using run by simp
qed

lemma no_production_no_derivation:
  assumes "list_all (\<lambda>A. obj_get (rules G) A = []) (object_keys (rules G))"
  shows "\<not> derives G A w"
proof
  assume "derives G A w"
  then obtain pr where pr: "pr \<in> set (obj_get (rules G) A)"
    by (cases rule: derives.cases) auto
  from obj_get_key [OF pr] assms have "obj_get (rules G) A = []"
    by (simp add: list_all_iff)
  with pr show False by simp
qed

lemma foldE_skip: "\<forall>x \<in> set xs. \<forall>s. f x s = Inr s \<Longrightarrow> foldE f xs s = Inr s"
  by (induction xs) simp_all

lemma parse_without_arrows:
  assumes "list_all (\<lambda>l. arrow_split l = None) (grammar_lines text)"
  shows "parseGrammarFromText text
     = Inr \<lparr>variables = [], terminals = [], startSymbol = js ''S'', rules = []\<rparr>"
proof -
  let ?ls = "grammar_lines text"
  have "\<forall>il \<in> set (zip [0 ..< length ?ls] ?ls). \<forall>s. process_line il s = Inr s"
  proof (intro ballI allI)
    fix il s assume "il \<in> set (zip [0 ..< length ?ls] ?ls)"
    then have "snd il \<in> set ?ls" by (metis prod.collapse set_zip_rightD)
    with assms have "arrow_split (snd il) = None" by (simp add: list_all_iff)
    then show "process_line il s = Inr s"
      by (cases il) (simp add: process_line_def)
  qed
  then show ?thesis
    by (simp add: parseGrammarFromText_def Let_def foldE_skip)
qed

section \<open>The backpointers the recognizer records\<close>

lemma nth_upd2:
  "dims n t \<Longrightarrow> i < n \<Longrightarrow> j < n \<Longrightarrow> i' < n \<Longrightarrow> j' < n \<Longrightarrow>
     upd2 t i j v ! i' ! j' = (if i' = i \<and> j' = j then v else t ! i' ! j')"
  by (auto simp: dims_def upd2_def list_all_length nth_list_update)

lemma bcell_push_apply:
  "bcell_push m A r X =
     (if X = A then Some ((case m A of None \<Rightarrow> [] | Some rs \<Rightarrow> rs) @ [r]) else m X)"
  by (simp add: bcell_push_def)

lemma dom_bcell_push: "dom (bcell_push m A r) = insert A (dom m)"
  by (simp add: bcell_push_def)

lemma bp_ok_mono:
  assumes "bp_ok b w i j r" "j < n"
    and "\<And>i' j' A. i' < n \<Longrightarrow> j' < n \<Longrightarrow> (b ! i' ! j') A \<noteq> None \<Longrightarrow> (b' ! i' ! j') A \<noteq> None"
  shows "bp_ok b' w i j r"
  using assms by (cases r) auto

lemma ptr_inv_push:
  assumes inv: "ptr_inv n w (t, b)" and ij: "i < n" "j < n" and ok: "bp_ok b w i j r"
  shows "ptr_inv n w (upd2 t i j (insert A (t ! i ! j)), upd2 b i j (bcell_push (b ! i ! j) A r))"
proof -
  let ?b' = "upd2 b i j (bcell_push (b ! i ! j) A r)"
  from inv have dt: "dims n t" and db: "dims n b"
    and link: "\<And>i j. i < n \<Longrightarrow> j < n \<Longrightarrow> t ! i ! j = dom (b ! i ! j)"
    and rec: "\<And>i j A rs. i < n \<Longrightarrow> j < n \<Longrightarrow> (b ! i ! j) A = Some rs \<Longrightarrow>
                 rs \<noteq> [] \<and> (\<forall>r \<in> set rs. bp_ok b w i j r)"
    by (auto simp: ptr_inv_def back_inv_def)
  have nb: "\<And>i' j'. i' < n \<Longrightarrow> j' < n \<Longrightarrow>
      ?b' ! i' ! j' = (if i' = i \<and> j' = j then bcell_push (b ! i ! j) A r else b ! i' ! j')"
    using nth_upd2 [OF db ij] by simp
  have grow: "(?b' ! i' ! j') X \<noteq> None"
    if "i' < n" "j' < n" "(b ! i' ! j') X \<noteq> None" for i' j' X
    unfolding nb [OF that(1,2)] using that(3) by (auto simp: bcell_push_def)
  have "back_inv n w ?b'"
    unfolding back_inv_def
  proof (intro conjI allI impI)
    show "dims n ?b'" by (rule dims_upd2 [OF db])
  next
    fix i' j' X rs
    assume lt: "i' < n" "j' < n" and rs: "(?b' ! i' ! j') X = Some rs"
    have old: "rs' \<noteq> [] \<and> (\<forall>r \<in> set rs'. bp_ok ?b' w i' j' r)" if "(b ! i' ! j') X = Some rs'" for rs'
      using rec [OF lt that] bp_ok_mono [OF _ lt(2) grow] by blast
    have new: "bp_ok ?b' w i j r"
      by (rule bp_ok_mono [OF ok ij(2) grow])
    from rs have rs': "(if i' = i \<and> j' = j then bcell_push (b ! i ! j) A r else b ! i' ! j') X = Some rs"
      by (simp only: nb [OF lt])
    have both: "rs \<noteq> [] \<and> (\<forall>r \<in> set rs. bp_ok ?b' w i' j' r)"
    proof (cases "i' = i \<and> j' = j \<and> X = A")
      case True
      with rs' have e: "rs = (case (b ! i ! j) A of None \<Rightarrow> [] | Some rs \<Rightarrow> rs) @ [r]"
        by (simp add: bcell_push_apply)
      show ?thesis
      proof (cases "(b ! i ! j) A")
        case None
        with e new True show ?thesis by simp
      next
        case (Some rs0)
        with old [of rs0] True e new show ?thesis by auto
      qed
    next
      case False
      with rs' have "(b ! i' ! j') X = Some rs"
        by (auto simp: bcell_push_apply split: if_splits)
      from old [OF this] show ?thesis .
    qed
    from both show "rs \<noteq> []" by simp
    from both show "\<forall>r \<in> set rs. bp_ok ?b' w i' j' r" by simp
  qed
  moreover have "upd2 t i j (insert A (t ! i ! j)) ! i' ! j' = dom (?b' ! i' ! j')"
    if "i' < n" "j' < n" for i' j'
    using link [OF that] link [OF ij]
    by (simp add: nb [OF that] nth_upd2 [OF dt ij that] dom_bcell_push)
  ultimately show ?thesis
    using dims_upd2 [OF dt] by (simp add: ptr_inv_def)
qed

lemma foldE_invariant:
  assumes "I s" and "\<And>x s. x \<in> set xs \<Longrightarrow> I s \<Longrightarrow> \<exists>s'. f x s = Inr s' \<and> I s'"
  shows "\<exists>s'. foldE f xs s = Inr s' \<and> I s'"
  using foldE_sim [where R = "\<lambda>s (a::unit). I s" and g = "\<lambda>x a. a" and f = f and xs = xs and s = s]
    assms by blast

lemma diag_prod_inv:
  assumes "ptr_inv n w st" "i < n" "tok = w ! i"
  shows "\<exists>st'. diag_prod tok i A pr st = Inr st' \<and> ptr_inv n w st'"
proof -
  obtain t b where st: "st = (t, b)" by (cases st)
  from assms(1) st have d: "dims n t" "dims n b" by (simp_all add: ptr_inv_def back_inv_def)
  have "bp_ok b w i i (Terminal tok)" using assms(3) by simp
  from ptr_inv_push [OF assms(1) [unfolded st] assms(2,2) this, of A] assms(1) [unfolded st]
  show ?thesis
    by (auto simp: st diag_prod_def at2_dims [OF d(1) assms(2,2)] at2_dims [OF d(2) assms(2,2)])
qed

lemma bin_prod_inv:
  assumes "ptr_inv n w st" "i \<le> k" "k < j" "j < n"
  shows "\<exists>st'. bin_prod i j k A pr st = Inr st' \<and> ptr_inv n w st'"
proof -
  obtain t b where st: "st = (t, b)" by (cases st)
  from assms(1) st have d: "dims n t" "dims n b"
    and link: "\<And>i j. i < n \<Longrightarrow> j < n \<Longrightarrow> t ! i ! j = dom (b ! i ! j)"
    by (simp_all add: ptr_inv_def back_inv_def)
  from assms have lt: "i < n" "k < n" "Suc k < n" by simp_all
  note rd = at2_dims [OF d(1) lt(1,2)] at2_dims [OF d(1) lt(3) assms(4)]
    at2_dims [OF d(1) lt(1) assms(4)] at2_dims [OF d(2) lt(1) assms(4)]
  show ?thesis
  proof (cases "length pr = 2 \<and> pr ! 0 \<in> t ! i ! k \<and> pr ! 1 \<in> t ! (k + 1) ! j")
    case True
    with link [OF lt(1,2)] link [OF lt(3) assms(4)]
    have "bp_ok b w i j (Binary (pr ! 0) (pr ! 1) k)"
      using assms(2,3) by auto
    from ptr_inv_push [OF assms(1) [unfolded st] lt(1) assms(4) this, of A] True
    show ?thesis by (simp add: st bin_prod_def rd)
  next
    case False
    with assms(1) show ?thesis
      by (auto simp: st bin_prod_def rd)
  qed
qed

lemma cyk_fill_inv:
  assumes "ptr_inv (length w) w st"
  shows "\<exists>st'. cyk_fill G w st = Inr st' \<and> ptr_inv (length w) w st'"
proof -
  let ?n = "length w"
  let ?I = "ptr_inv ?n w"
  have dv: "\<exists>st'. diag_var G (w ! i) i A st = Inr st' \<and> ?I st'" if "?I st" "i < ?n" for i A st
    unfolding diag_var_def
    by (rule foldE_invariant [where I = ?I, OF that(1)]) (rule diag_prod_inv [OF _ that(2) refl])
  have dp: "\<exists>st'. diag_pos G w i st = Inr st' \<and> ?I st'" if "?I st" "i < ?n" for i st
    unfolding diag_pos_def
    by (rule foldE_invariant [where I = ?I, OF that(1)]) (rule dv [OF _ that(2)])
  have dl: "\<exists>st'. diag_loop G w st = Inr st' \<and> ?I st'" if "?I st" for st
    unfolding diag_loop_def
    by (rule foldE_invariant [where I = ?I, OF that]) (rule dp, simp_all)
  have bv: "\<exists>st'. bin_var G i j k A st = Inr st' \<and> ?I st'"
    if "?I st" "i \<le> k" "k < j" "j < ?n" for i j k A st
    unfolding bin_var_def
    by (rule foldE_invariant [where I = ?I, OF that(1)]) (rule bin_prod_inv [OF _ that(2-)])
  have bs: "\<exists>st'. bin_split G i j k st = Inr st' \<and> ?I st'"
    if "?I st" "i \<le> k" "k < j" "j < ?n" for i j k st
    unfolding bin_split_def
    by (rule foldE_invariant [where I = ?I, OF that(1)]) (rule bv [OF _ that(2-)])
  have bc: "\<exists>st'. bin_cell G len i st = Inr st' \<and> ?I st'"
    if "?I st" "2 \<le> len" "i + len \<le> ?n" for len i st
    unfolding bin_cell_def Let_def
    by (rule foldE_invariant [where I = ?I, OF that(1)]) (rule bs, use that in auto)
  have bl: "\<exists>st'. bin_len G ?n len st = Inr st' \<and> ?I st'"
    if "?I st" "2 \<le> len" "len \<le> ?n" for len st
    unfolding bin_len_def
    by (rule foldE_invariant [where I = ?I, OF that(1)]) (rule bc, use that in auto)
  have ul: "\<exists>st'. upper_loop G ?n st = Inr st' \<and> ?I st'" if "?I st" for st
    unfolding upper_loop_def
    by (rule foldE_invariant [where I = ?I, OF that]) (rule bl, auto)
  from dl [OF assms] obtain st1 where "diag_loop G w st = Inr st1" "?I st1" by blast
  with ul [OF this(2)] show ?thesis by (simp add: cyk_fill_def)
qed

lemma ptr_inv_init: "ptr_inv n w (init_table n, init_back n)"
  by (simp add: ptr_inv_def back_inv_def init_table_def init_back_def dims_replicate)


lemma span_single: "i < length w \<Longrightarrow> take (Suc i - i) (drop i w) = [w ! i]"
  by (simp add: take_Suc_conv_app_nth hd_drop_conv_nth take_Suc)

lemma choose_rec_ok:
  assumes inv: "back_inv (length w) w b"
  shows "i < length w \<Longrightarrow> j < length w \<Longrightarrow> (b ! i ! j) A \<noteq> None \<Longrightarrow>
     \<exists>T. choose_rec b A i j = Some (Inr T) \<and> no_bare T \<and> label T = A
         \<and> leaves T = take (Suc j - i) (drop i w)"
proof (induction "j - i" arbitrary: A i j rule: less_induct)
  case less
  let ?n = "length w"
  from inv have db: "dims ?n b" by (simp add: back_inv_def)
  from less.prems(3) obtain rs where rs: "(b ! i ! j) A = Some rs" by auto
  with inv less.prems(1,2) have ne: "rs \<noteq> []" and ok: "\<forall>r \<in> set rs. bp_ok b w i j r"
    by (auto simp: back_inv_def)
  from ne obtain first rest where fr: "rs = first # rest" by (cases rs) auto
  with ok have okf: "bp_ok b w i j first" by simp
  note rd = at2_dims [OF db less.prems(1,2)]
  show ?case
  proof (cases first)
    case (Terminal tok)
    with okf have e: "i = j" "tok = w ! i" by simp_all
    have "choose_rec b A i j = Some (Inr (NodeChild A tok))"
      by (subst choose_rec.simps) (simp add: rd rs fr Terminal)
    with e less.prems(1) span_single [of i w] show ?thesis
      by simp
  next
    case (Binary B C k)
    with okf have k: "i \<le> k" "k < j" and en: "(b ! i ! k) B \<noteq> None" "(b ! Suc k ! j) C \<noteq> None"
      by simp_all
    from k less.prems have lt: "k < ?n" "Suc k < ?n" by simp_all
    from k have m1: "k - i < j - i" and m2: "j - Suc k < j - i" by simp_all
    from less.hyps [OF m1 less.prems(1) lt(1) en(1)] obtain Tl where
      l: "choose_rec b B i k = Some (Inr Tl)" "no_bare Tl" "label Tl = B"
         "leaves Tl = take (Suc k - i) (drop i w)"
      by blast
    from less.hyps [OF m2 lt(2) less.prems(2) en(2)] obtain Tr where
      r: "choose_rec b C (Suc k) j = Some (Inr Tr)" "no_bare Tr" "label Tr = C"
         "leaves Tr = take (Suc j - Suc k) (drop (Suc k) w)"
      by blast
    have "choose_rec b A i j = Some (Inr (NodeLR A Tl Tr))"
      by (subst choose_rec.simps) (simp add: rd rs fr Binary l(1) r(1))
    with l r span_split [OF k, of w] show ?thesis by simp
  qed
qed

lemma dims_first_only: "dims n b \<Longrightarrow> dims n (first_only b)"
  by (simp add: dims_def first_only_def list_all_length)

lemma nth_first_only:
  "dims n b \<Longrightarrow> i < n \<Longrightarrow> j < n \<Longrightarrow> (first_only b ! i ! j) A = map_option (take 1) ((b ! i ! j) A)"
  by (simp add: dims_def first_only_def list_all_length)

lemma choose_rec_first_only:
  assumes inv: "back_inv (length w) w b"
  shows "i < length w \<Longrightarrow> j < length w \<Longrightarrow> (b ! i ! j) A \<noteq> None \<Longrightarrow>
     choose_rec (first_only b) A i j = choose_rec b A i j"
proof (induction "j - i" arbitrary: A i j rule: less_induct)
  case less
  let ?n = "length w"
  from inv have db: "dims ?n b" by (simp add: back_inv_def)
  from less.prems(3) obtain rs where rs: "(b ! i ! j) A = Some rs" by auto
  with inv less.prems(1,2) have ne: "rs \<noteq> []" and ok: "\<forall>r \<in> set rs. bp_ok b w i j r"
    by (auto simp: back_inv_def)
  from ne obtain first rest where fr: "rs = first # rest" by (cases rs) auto
  with ok have okf: "bp_ok b w i j first" by simp
  note rd = at2_dims [OF db less.prems(1,2)] at2_dims [OF dims_first_only [OF db] less.prems(1,2)]
  note nf = nth_first_only [OF db less.prems(1,2)]
  show ?case
  proof (cases first)
    case (Terminal tok)
    have "choose_rec (first_only b) A i j = Some (Inr (NodeChild A tok))"
      by (subst choose_rec.simps) (simp add: rd nf rs fr Terminal)
    moreover have "choose_rec b A i j = Some (Inr (NodeChild A tok))"
      by (subst choose_rec.simps) (simp add: rd rs fr Terminal)
    ultimately show ?thesis by simp
  next
    case (Binary B C k)
    with okf have k: "i \<le> k" "k < j" and en: "(b ! i ! k) B \<noteq> None" "(b ! Suc k ! j) C \<noteq> None"
      by simp_all
    from k less.prems have lt: "k < ?n" "Suc k < ?n" by simp_all
    from k have m1: "k - i < j - i" and m2: "j - Suc k < j - i" by simp_all
    note l = less.hyps [OF m1 less.prems(1) lt(1) en(1)]
    note r = less.hyps [OF m2 lt(2) less.prems(2) en(2)]
    have "choose_rec (first_only b) A i j =
        Option.bind (choose_rec (first_only b) B i k) (\<lambda>l.
          case l of Inl e \<Rightarrow> Some (Inl e)
          | Inr lt \<Rightarrow>
             Option.bind (choose_rec (first_only b) C (Suc k) j) (\<lambda>r.
               case r of Inl e \<Rightarrow> Some (Inl e)
               | Inr rt \<Rightarrow> Some (Inr (NodeLR A lt rt))))"
      by (subst choose_rec.simps) (simp add: rd nf rs fr Binary)
    moreover have "choose_rec b A i j =
        Option.bind (choose_rec b B i k) (\<lambda>l.
          case l of Inl e \<Rightarrow> Some (Inl e)
          | Inr lt \<Rightarrow>
             Option.bind (choose_rec b C (Suc k) j) (\<lambda>r.
               case r of Inl e \<Rightarrow> Some (Inl e)
               | Inr rt \<Rightarrow> Some (Inr (NodeLR A lt rt))))"
      by (subst choose_rec.simps) (simp add: rd rs fr Binary)
    ultimately show ?thesis by (simp only: l r)
  qed
qed

lemma cykWithPointers_inv:
  assumes "w \<noteq> []"
  shows "\<exists>t b. cykWithPointers w G =
            Inr \<lparr>cyk_result.accepted = (startSymbol G \<in> dom (b ! 0 ! (length w - 1))),
                 table = t, backptrs = b\<rparr>
          \<and> back_inv (length w) w b"
proof -
  let ?n = "length w"
  from cyk_fill_inv [OF ptr_inv_init [of "length w" w], of G] obtain t b where
    run: "cyk_fill G w (init_table ?n, init_back ?n) = Inr (t, b)"
    and inv: "ptr_inv ?n w (t, b)"
    by auto
  from assms have pos: "0 < ?n" "?n - 1 < ?n" by simp_all
  from inv have d: "dims ?n t" and bi: "back_inv ?n w b"
    and link: "t ! 0 ! (?n - 1) = dom (b ! 0 ! (?n - 1))"
    using pos by (simp_all add: ptr_inv_def)
  have "has_start G ?n t = Inr (startSymbol G \<in> dom (b ! 0 ! (?n - 1)))"
    using at2_dims [OF d pos] link by (simp add: has_start_def)
  with run assms bi show ?thesis
    by (auto simp: cykWithPointers_def Let_def)
qed

lemma buildParseTree_result:
  assumes "cykWithPointers w G = Inr r"
  shows "(cyk_result.accepted r \<longrightarrow>
           (\<exists>T. buildParseTree G w (backptrs r) = Some (Inr (Some T)) \<and> no_bare T
                \<and> label T = startSymbol G \<and> leaves T = w))
       \<and> (\<not> cyk_result.accepted r \<longrightarrow> buildParseTree G w (backptrs r) = Some (Inr None))
       \<and> buildParseTree G w (first_only (backptrs r)) = buildParseTree G w (backptrs r)"
proof (cases "w = []")
  case True
  with assms show ?thesis
    by (auto simp: cykWithPointers_def buildParseTree_def)
next
  case False
  let ?n = "length w"
  from cykWithPointers_inv [OF False, of G] assms obtain t b where
    r: "r = \<lparr>cyk_result.accepted = (startSymbol G \<in> dom (b ! 0 ! (?n - 1))),
             table = t, backptrs = b\<rparr>"
    and inv: "back_inv ?n w b"
    by auto
  from inv have db: "dims ?n b" by (simp add: back_inv_def)
  from False have pos: "0 < ?n" "?n - 1 < ?n" by simp_all
  note rd = at2_dims [OF db pos] at2_dims [OF dims_first_only [OF db] pos]
  note nf = nth_first_only [OF db pos]
  show ?thesis
  proof (cases "(b ! 0 ! (?n - 1)) (startSymbol G)")
    case None
    with False r show ?thesis
      using rd nf [of "startSymbol G"] by (simp add: buildParseTree_def Let_def dom_def)
  next
    case (Some rs)
    then have en: "(b ! 0 ! (?n - 1)) (startSymbol G) \<noteq> None" by simp
    from choose_rec_ok [OF inv pos en] obtain T where
      T: "choose_rec b (startSymbol G) 0 (?n - 1) = Some (Inr T)" "no_bare T"
         "label T = startSymbol G" "leaves T = take (Suc (?n - 1) - 0) (drop 0 w)"
      by blast
    from False T(4) have lv: "leaves T = w" by simp
    note fo = choose_rec_first_only [OF inv pos en]
    from False r Some T(1-3) lv fo show ?thesis
      using rd nf [of "startSymbol G"] by (simp add: buildParseTree_def Let_def dom_def)
  qed
qed

section \<open>The first record of every list\<close>

subsection \<open>The first component is the table\<close>

lemma fold_fst:
  assumes "\<And>x s. x \<in> set xs \<Longrightarrow> fst (g x s) = g1 x (fst s)"
  shows "fst (fold g xs s) = fold g1 xs (fst s)"
  using assms by (induction xs arbitrary: s) simp_all

lemma fst_p_diag_prod: "fst (p_diag_prod tok i A pr fh) = f_diag_prod tok i A pr (fst fh)"
  by (simp add: p_diag_prod_def f_diag_prod_def)

lemma fst_p_bin_prod: "fst (p_bin_prod i j k A pr fh) = f_bin_prod i j k A pr (fst fh)"
  by (simp add: p_bin_prod_def f_bin_prod_def bin_cond_def)

lemma fst_p_diag_loop: "fst (p_diag_loop G w fh) = f_diag_loop G w (fst fh)"
  unfolding p_diag_loop_def f_diag_loop_def p_diag_pos_def f_diag_pos_def
    p_diag_var_def f_diag_var_def
  by (intro fold_fst fst_p_diag_prod)

lemma fst_p_bin_cell: "fst (p_bin_cell G len i fh) = f_bin_cell G len i (fst fh)"
  unfolding p_bin_cell_def f_bin_cell_def p_bin_split_def f_bin_split_def
    p_bin_var_def f_bin_var_def
  by (intro fold_fst fst_p_bin_prod)

lemma fst_p_bin_len: "fst (p_bin_len G n len fh) = f_bin_len G n len (fst fh)"
  unfolding p_bin_len_def f_bin_len_def
  by (intro fold_fst fst_p_bin_cell)

lemma fst_p_fill: "fst (p_fill G w fh) = f_fill G w (fst fh)"
  unfolding p_fill_def f_fill_def p_upper_loop_def f_upper_loop_def
  by (simp add: fold_fst [where ?g1.0 = "f_bin_len G (length w)"] fst_p_bin_len fst_p_diag_loop)

subsection \<open>Heads\<close>

lemma head_fill_apply:
  "head_fill h i j m i' j' = (if i' = i \<and> j' = j then m ++ h i j else h i' j')"
  by (simp add: head_fill_def)

lemma head_fill_empty: "head_fill h i j Map.empty = h"
  by (auto simp: head_fill_def fun_eq_iff)

lemma head_fill_twice: "head_fill (head_fill h i j m1) i j m2 = head_fill h i j (m2 ++ m1)"
  by (auto simp: head_fill_def fun_eq_iff)

lemma fold_pair_eq:
  assumes "\<And>x f h. x \<in> set xs \<Longrightarrow> g x (f, h) = (cell_upd f i j (S x f), head_fill h i j (M x f))"
    and "\<And>x f T. x \<in> set xs \<Longrightarrow> S x (cell_upd f i j T) = S x f"
    and "\<And>x f T. x \<in> set xs \<Longrightarrow> M x (cell_upd f i j T) = M x f"
  shows "fold g xs (f, h) =
     (cell_upd f i j (\<Union>x \<in> set xs. S x f), head_fill h i j (firsts (map (\<lambda>x. M x f) xs)))"
  using assms
proof (induction xs arbitrary: f h)
  case Nil
  then show ?case by (simp add: head_fill_empty cell_upd_empty)
next
  case (Cons x xs)
  let ?f = "cell_upd f i j (S x f)" and ?h = "head_fill h i j (M x f)"
  have gx: "g x (f, h) = (?f, ?h)" by (simp add: Cons.prems(1))
  have "fold g xs (?f, ?h) =
      (cell_upd ?f i j (\<Union>y \<in> set xs. S y ?f), head_fill ?h i j (firsts (map (\<lambda>y. M y ?f) xs)))"
    by (rule Cons.IH) (simp_all add: Cons.prems)
  also have "map (\<lambda>y. M y ?f) xs = map (\<lambda>y. M y f) xs"
    by (simp add: Cons.prems(3))
  also have "(\<Union>y \<in> set xs. S y ?f) = (\<Union>y \<in> set xs. S y f)"
    by (simp add: Cons.prems(2))
  finally show ?case
    by (simp add: gx head_fill_twice cell_upd_twice)
qed

lemma firsts_map_find:
  "firsts (map F ks) X = (case find (\<lambda>k. F k X \<noteq> None) ks of None \<Rightarrow> None | Some k \<Rightarrow> F k X)"
  by (induction ks) (auto simp: map_add_def split: option.splits)

lemma firsts_singletons:
  "firsts (map (\<lambda>A. if c A then [A \<mapsto> v A] else Map.empty) As) X
     = (if X \<in> set As \<and> c X then Some (v X) else None)"
  by (induction As) (auto simp: map_add_def split: option.splits)

lemma map_add_absorb: "m ++ (m ++ h) = m ++ h" "(m ++ m) ++ h = m ++ h"
  by (simp_all add: map_add_def fun_eq_iff split: option.splits)

lemma firsts_const:
  "firsts (map (\<lambda>x. if c x then m else Map.empty) xs) = (if \<exists>x \<in> set xs. c x then m else Map.empty)"
  by (induction xs) (auto simp: map_add_def fun_eq_iff split: option.splits)

lemma firsts_find_single:
  "firsts (map (\<lambda>x. if c x then [A \<mapsto> v x] else Map.empty) xs) =
     (case find c xs of None \<Rightarrow> Map.empty | Some x \<Rightarrow> [A \<mapsto> v x])"
  by (induction xs) (auto simp: map_add_def fun_eq_iff split: option.splits)

lemma obj_get_not_key: "A \<notin> set (object_keys obj) \<Longrightarrow> obj_get obj A = []"
  using obj_get_key [of _ obj A] by (cases "obj_get obj A") auto

subsection \<open>The diagonal\<close>

lemma p_diag_prod_eq:
  "p_diag_prod tok i A pr (f, h) =
     (cell_upd f i i (if length pr = 1 \<and> pr ! 0 = tok then {A} else {}),
      head_fill h i i (if length pr = 1 \<and> pr ! 0 = tok then [A \<mapsto> Terminal tok] else Map.empty))"
  by (simp add: p_diag_prod_def cell_upd_empty head_fill_empty)

lemma p_diag_var_eq:
  "p_diag_var G tok i A (f, h) =
     (cell_upd f i i (if \<exists>pr \<in> set (obj_get (rules G) A). length pr = 1 \<and> pr ! 0 = tok then {A} else {}),
      head_fill h i i (if \<exists>pr \<in> set (obj_get (rules G) A). length pr = 1 \<and> pr ! 0 = tok
                       then [A \<mapsto> Terminal tok] else Map.empty))"
proof -
  have "p_diag_var G tok i A (f, h) =
     (cell_upd f i i (\<Union>pr \<in> set (obj_get (rules G) A).
         (if length pr = 1 \<and> pr ! 0 = tok then {A} else {})),
      head_fill h i i (firsts (map (\<lambda>pr. if length pr = 1 \<and> pr ! 0 = tok
                       then [A \<mapsto> Terminal tok] else Map.empty) (obj_get (rules G) A))))"
    unfolding p_diag_var_def
    by (rule fold_pair_eq) (simp_all add: p_diag_prod_eq)
  also have "(\<Union>pr \<in> set (obj_get (rules G) A). (if length pr = 1 \<and> pr ! 0 = tok then {A} else {}))
      = (if \<exists>pr \<in> set (obj_get (rules G) A). length pr = 1 \<and> pr ! 0 = tok then {A} else {})"
    by auto
  finally show ?thesis by (simp only: firsts_const)
qed

lemma p_diag_pos_eq:
  "p_diag_pos G w i (f, h) =
     (cell_upd f i i (diag_set G (w ! i)), head_fill h i i (diag_rec G (w ! i)))"
proof -
  let ?c = "\<lambda>A. \<exists>pr \<in> set (obj_get (rules G) A). length pr = 1 \<and> pr ! 0 = w ! i"
  have "p_diag_pos G w i (f, h) =
     (cell_upd f i i (\<Union>A \<in> set (object_keys (rules G)). (if ?c A then {A} else {})),
      head_fill h i i (firsts (map (\<lambda>A. if ?c A then [A \<mapsto> Terminal (w ! i)] else Map.empty)
                         (object_keys (rules G)))))"
    unfolding p_diag_pos_def
    by (rule fold_pair_eq) (simp_all add: p_diag_var_eq)
  also have "(\<Union>A \<in> set (object_keys (rules G)). (if ?c A then {A} else {})) = diag_set G (w ! i)"
    by (auto simp: diag_set_def split: if_splits)
  also have "firsts (map (\<lambda>A. if ?c A then [A \<mapsto> Terminal (w ! i)] else Map.empty)
                         (object_keys (rules G))) = diag_rec G (w ! i)"
    by (rule ext) (simp add: firsts_singletons diag_rec_def diag_set_def)
  finally show ?thesis .
qed

lemma snd_fold_diag:
  "snd (fold (p_diag_pos G w) xs (f, h)) i j =
     (if i = j \<and> i \<in> set xs then diag_rec G (w ! i) ++ h i i else h i j)"
  by (induction xs arbitrary: f h)
     (auto simp: p_diag_pos_eq head_fill_apply map_add_absorb)

lemma snd_p_diag_loop:
  "snd (p_diag_loop G w (f, h)) i j =
     (if i = j \<and> i < length w then diag_rec G (w ! i) ++ h i i else h i j)"
  by (simp add: p_diag_loop_def snd_fold_diag)

subsection \<open>One cell of the upper triangle\<close>

lemma p_bin_prod_eq:
  "p_bin_prod i j k A pr (f, h) =
     (cell_upd f i j (if bin_cond f i j k pr then {A} else {}),
      head_fill h i j (if bin_cond f i j k pr then [A \<mapsto> Binary (pr ! 0) (pr ! 1) k] else Map.empty))"
  by (simp add: p_bin_prod_def cell_upd_empty head_fill_empty)

lemma p_bin_var_eq:
  assumes "k \<noteq> j" "Suc k \<noteq> i"
  shows "p_bin_var G i j k A (f, h) =
     (cell_upd f i j (if \<exists>pr \<in> set (obj_get (rules G) A). bin_cond f i j k pr then {A} else {}),
      head_fill h i j
        (case find (bin_cond f i j k) (obj_get (rules G) A) of
           None \<Rightarrow> Map.empty
         | Some pr \<Rightarrow> [A \<mapsto> Binary (pr ! 0) (pr ! 1) k]))"
proof -
  have "p_bin_var G i j k A (f, h) =
     (cell_upd f i j (\<Union>pr \<in> set (obj_get (rules G) A). (if bin_cond f i j k pr then {A} else {})),
      head_fill h i j (firsts (map (\<lambda>pr. if bin_cond f i j k pr
                         then [A \<mapsto> Binary (pr ! 0) (pr ! 1) k] else Map.empty)
                       (obj_get (rules G) A))))"
    unfolding p_bin_var_def
    by (rule fold_pair_eq) (simp_all add: p_bin_prod_eq bin_cond_cell_upd assms)
  also have "(\<Union>pr \<in> set (obj_get (rules G) A). (if bin_cond f i j k pr then {A} else {}))
      = (if \<exists>pr \<in> set (obj_get (rules G) A). bin_cond f i j k pr then {A} else {})"
    by auto
  finally show ?thesis by (simp only: firsts_find_single)
qed

lemma split_rec_apply:
  "split_rec G f i j k X =
     (case find (bin_cond f i j k) (obj_get (rules G) X) of
        None \<Rightarrow> None | Some pr \<Rightarrow> Some (Binary (pr ! 0) (pr ! 1) k))"
  by (simp add: split_rec_def split: option.splits)

lemma firsts_var_recs:
  "firsts (map (\<lambda>A. case find (bin_cond f i j k) (obj_get (rules G) A) of
                      None \<Rightarrow> Map.empty
                    | Some pr \<Rightarrow> [A \<mapsto> Binary (pr ! 0) (pr ! 1) k]) (object_keys (rules G)))
     = split_rec G f i j k"
proof (rule ext)
  fix X
  let ?c = "\<lambda>A. find (bin_cond f i j k) (obj_get (rules G) A) \<noteq> None"
  let ?v = "\<lambda>A. Binary (the (find (bin_cond f i j k) (obj_get (rules G) A)) ! 0)
                       (the (find (bin_cond f i j k) (obj_get (rules G) A)) ! 1) k"
  have "(\<lambda>A. case find (bin_cond f i j k) (obj_get (rules G) A) of
                      None \<Rightarrow> Map.empty
                    | Some pr \<Rightarrow> [A \<mapsto> Binary (pr ! 0) (pr ! 1) k])
      = (\<lambda>A. if ?c A then [A \<mapsto> ?v A] else Map.empty)"
    by (auto simp: fun_eq_iff split: option.splits)
  then have "firsts (map (\<lambda>A. case find (bin_cond f i j k) (obj_get (rules G) A) of
                      None \<Rightarrow> Map.empty
                    | Some pr \<Rightarrow> [A \<mapsto> Binary (pr ! 0) (pr ! 1) k]) (object_keys (rules G))) X
      = (if X \<in> set (object_keys (rules G)) \<and> ?c X then Some (?v X) else None)"
    by (simp only: firsts_singletons)
  also have "\<dots> = split_rec G f i j k X"
    by (cases "X \<in> set (object_keys (rules G))")
       (auto simp: split_rec_apply obj_get_not_key split: option.splits)
  finally show "firsts (map (\<lambda>A. case find (bin_cond f i j k) (obj_get (rules G) A) of
                      None \<Rightarrow> Map.empty
                    | Some pr \<Rightarrow> [A \<mapsto> Binary (pr ! 0) (pr ! 1) k]) (object_keys (rules G))) X
      = split_rec G f i j k X" .
qed

lemma p_bin_split_eq:
  assumes "k \<noteq> j" "Suc k \<noteq> i"
  shows "p_bin_split G i j k (f, h) =
     (cell_upd f i j {A \<in> set (object_keys (rules G)).
                      \<exists>pr \<in> set (obj_get (rules G) A). bin_cond f i j k pr},
      head_fill h i j (split_rec G f i j k))"
proof -
  have "p_bin_split G i j k (f, h) =
     (cell_upd f i j (\<Union>A \<in> set (object_keys (rules G)).
        (if \<exists>pr \<in> set (obj_get (rules G) A). bin_cond f i j k pr then {A} else {})),
      head_fill h i j (firsts (map (\<lambda>A. case find (bin_cond f i j k) (obj_get (rules G) A) of
                      None \<Rightarrow> Map.empty
                    | Some pr \<Rightarrow> [A \<mapsto> Binary (pr ! 0) (pr ! 1) k]) (object_keys (rules G)))))"
    unfolding p_bin_split_def
    by (rule fold_pair_eq) (simp_all add: p_bin_var_eq bin_cond_cell_upd assms)
  also have "(\<Union>A \<in> set (object_keys (rules G)).
        (if \<exists>pr \<in> set (obj_get (rules G) A). bin_cond f i j k pr then {A} else {}))
      = {A \<in> set (object_keys (rules G)). \<exists>pr \<in> set (obj_get (rules G) A). bin_cond f i j k pr}"
    by (auto split: if_splits)
  finally show ?thesis by (simp only: firsts_var_recs)
qed

lemma split_rec_cell_upd:
  "k \<noteq> j \<Longrightarrow> Suc k \<noteq> i \<Longrightarrow> split_rec G (cell_upd f i j T) i j k = split_rec G f i j k"
proof -
  assume "k \<noteq> j" "Suc k \<noteq> i"
  then have "bin_cond (cell_upd f i j T) i j k = bin_cond f i j k"
    by (simp add: fun_eq_iff bin_cond_cell_upd)
  then show ?thesis by (simp add: split_rec_def)
qed

lemma p_bin_cell_eq:
  "p_bin_cell G len i (f, h) =
     (cell_upd f i (i + len - 1) (new_set G f i (i + len - 1)),
      head_fill h i (i + len - 1) (first_rec G f i (i + len - 1)))"
proof -
  let ?j = "i + len - 1"
  have "p_bin_cell G len i (f, h) =
     (cell_upd f i ?j (\<Union>k \<in> set [i ..< ?j].
        {A \<in> set (object_keys (rules G)). \<exists>pr \<in> set (obj_get (rules G) A). bin_cond f i ?j k pr}),
      head_fill h i ?j (firsts (map (\<lambda>k. split_rec G f i ?j k) [i ..< ?j])))"
    unfolding p_bin_cell_def
    by (rule fold_pair_eq) (simp_all add: p_bin_split_eq bin_cond_cell_upd split_rec_cell_upd)
  also have "(\<Union>k \<in> set [i ..< ?j].
        {A \<in> set (object_keys (rules G)). \<exists>pr \<in> set (obj_get (rules G) A). bin_cond f i ?j k pr})
      = new_set G f i ?j"
    by (auto simp: new_set_def)
  also have "firsts (map (\<lambda>k. split_rec G f i ?j k) [i ..< ?j]) = first_rec G f i ?j"
    by (rule ext) (simp add: firsts_map_find first_rec_def)
  finally show ?thesis .
qed

subsection \<open>The passes over one length and over all lengths\<close>

lemma first_rec_cong:
  assumes "\<And>k. i \<le> k \<Longrightarrow> k < j \<Longrightarrow> f i k = g i k \<and> f (k + 1) j = g (k + 1) j"
  shows "first_rec G f i j = first_rec G g i j"
proof -
  have "split_rec G f i j k = split_rec G g i j k" if "k \<in> set [i ..< j]" for k
  proof -
    from that assms [of k] have "bin_cond f i j k = bin_cond g i j k"
      by (simp add: fun_eq_iff bin_cond_def)
    then show ?thesis by (simp add: split_rec_def)
  qed
  then have "find (\<lambda>k. split_rec G f i j k A \<noteq> None) [i ..< j]
      = find (\<lambda>k. split_rec G g i j k A \<noteq> None) [i ..< j]" for A
    by (intro find_cong) simp_all
  moreover have "k \<in> set [i ..< j]" if "find P [i ..< j] = Some k" for P k
    using that by (auto simp: find_Some_iff)
  ultimately show ?thesis
    using \<open>\<And>k. k \<in> set [i ..< j] \<Longrightarrow> split_rec G f i j k = split_rec G g i j k\<close>
    by (auto simp: first_rec_def fun_eq_iff split: option.splits)
qed

lemma first_rec_cell_upd:
  "2 \<le> len \<Longrightarrow>
     first_rec G (cell_upd f x (x + len - 1) T) i (i + len - 1) = first_rec G f i (i + len - 1)"
  by (rule first_rec_cong) (auto simp: cell_upd_apply)

lemma snd_fold_bin_cell:
  assumes "2 \<le> len"
  shows "snd (fold (p_bin_cell G len) xs (f, h)) i j =
     (if i \<in> set xs \<and> j = i + len - 1 then first_rec G f i j ++ h i j else h i j)"
proof (induction xs arbitrary: f h)
  case Nil
  then show ?case by simp
next
  case (Cons x xs)
  let ?g = "cell_upd f x (x + len - 1) (new_set G f x (x + len - 1))"
  let ?h = "head_fill h x (x + len - 1) (first_rec G f x (x + len - 1))"
  have "snd (fold (p_bin_cell G len) (x # xs) (f, h)) i j
      = snd (fold (p_bin_cell G len) xs (?g, ?h)) i j"
    by (simp add: p_bin_cell_eq)
  also have "\<dots> = (if i \<in> set xs \<and> j = i + len - 1 then first_rec G ?g i j ++ ?h i j else ?h i j)"
    by (rule Cons.IH)
  also have "\<dots> = (if i \<in> set (x # xs) \<and> j = i + len - 1 then first_rec G f i j ++ h i j else h i j)"
    using assms first_rec_cell_upd [OF assms, of G f x _ i]
    by (auto simp: head_fill_apply map_add_absorb)
  finally show ?case .
qed

lemma snd_p_bin_len:
  "2 \<le> len \<Longrightarrow> snd (p_bin_len G n len (f, h)) i j =
     (if i + len \<le> n \<and> j = i + len - 1 then first_rec G f i j ++ h i j else h i j)"
  by (auto simp: p_bin_len_def snd_fold_bin_cell)

lemma fst_fold_p_bin_len:
  "fst (fold (p_bin_len G n) ls fh) = fold (f_bin_len G n) ls (fst fh)"
  by (rule fold_fst) (rule fst_p_bin_len)

lemma p_upper_inv:
  assumes f0: "\<And>i j. i \<le> j \<Longrightarrow> j < length w \<Longrightarrow> f0 i j = (if i = j then D G w i i else {})"
    and "1 \<le> L" "i \<le> j" "j < length w"
  shows "snd (fold (p_bin_len G (length w)) [2 ..< Suc L] (f0, h0)) i j =
     (if i < j \<and> j - i < L then first_rec G (D G w) i j ++ h0 i j else h0 i j)"
  using assms(2-)
proof (induction L arbitrary: i j rule: nat_induct_at_least)
  case base
  then show ?case by auto
next
  case (Suc L)
  define gh where "gh = fold (p_bin_len G (length w)) [2 ..< Suc L] (f0, h0)"
  define g where "g = fst gh"
  define h where "h = snd gh"
  have gh: "gh = (g, h)" by (simp add: g_def h_def)
  have "g = fold (f_bin_len G (length w)) [2 ..< Suc L] f0"
    by (simp add: g_def gh_def fst_fold_p_bin_len)
  then have g: "\<And>i j. i \<le> j \<Longrightarrow> j < length w \<Longrightarrow> g i j = (if j - i < L then D G w i j else {})"
    using upper_inv [OF f0 Suc.hyps] by simp
  have h: "\<And>i j. i \<le> j \<Longrightarrow> j < length w \<Longrightarrow>
      h i j = (if i < j \<and> j - i < L then first_rec G (D G w) i j ++ h0 i j else h0 i j)"
    unfolding h_def gh_def by (rule Suc.IH)
  from Suc.hyps have e: "[2 ..< Suc (Suc L)] = [2 ..< Suc L] @ [Suc L]" by simp
  have "fold (p_bin_len G (length w)) [2 ..< Suc (Suc L)] (f0, h0)
      = p_bin_len G (length w) (Suc L) gh"
    by (simp only: e fold_append fold_Cons fold_Nil o_apply id_apply gh_def)
  then have "snd (fold (p_bin_len G (length w)) [2 ..< Suc (Suc L)] (f0, h0)) i j
      = snd (p_bin_len G (length w) (Suc L) (g, h)) i j"
    by (simp only: gh)
  also have "\<dots> = (if i + Suc L \<le> length w \<and> j = i + Suc L - 1
                    then first_rec G g i j ++ h i j else h i j)"
    by (rule snd_p_bin_len) (use Suc.hyps in simp)
  also have "\<dots> = (if i < j \<and> j - i < Suc L then first_rec G (D G w) i j ++ h0 i j else h0 i j)"
  proof (cases "j = i + L")
    case True
    have "first_rec G g i j = first_rec G (D G w) i j"
    proof (rule first_rec_cong)
      fix k assume "i \<le> k" "k < j"
      with True Suc.prems show "g i k = D G w i k \<and> g (k + 1) j = D G w (k + 1) j"
        by (auto simp: g)
    qed
    then show ?thesis
      using True Suc.prems Suc.hyps by (simp add: h)
  next
    case False
    with Suc.prems show ?thesis by (auto simp: h)
  qed
  finally show ?case .
qed

lemma p_fill_heads:
  assumes f0: "\<And>i j. i \<le> j \<Longrightarrow> j < length w \<Longrightarrow> f0 i j = {}"
    and "i \<le> j" "j < length w"
  shows "snd (p_fill G w (f0, \<lambda>i j. Map.empty)) i j = first_recs G w i j"
proof -
  let ?h0 = "\<lambda>(i::nat) (j::nat). (Map.empty :: symbol \<rightharpoonup> backptr)"
  define f1 where "f1 = f_diag_loop G w f0"
  define h1 where "h1 = snd (p_diag_loop G w (f0, ?h0))"
  have p: "p_diag_loop G w (f0, ?h0) = (f1, h1)"
    by (simp add: f1_def h1_def prod_eq_iff fst_p_diag_loop)
  have "snd (p_fill G w (f0, ?h0)) i j
      = snd (fold (p_bin_len G (length w)) [2 ..< Suc (length w)] (f1, h1)) i j"
    by (simp add: p_fill_def p_upper_loop_def p)
  also have "\<dots> = (if i < j \<and> j - i < length w then first_rec G (D G w) i j ++ h1 i j else h1 i j)"
  proof (rule p_upper_inv)
    fix i j assume "i \<le> j" "j < length w"
    then show "f1 i j = (if i = j then D G w i i else {})"
      by (simp add: f1_def f_diag_loop_apply f0 diag_set_D)
  qed (use assms in simp_all)
  also have "\<dots> = first_recs G w i j"
    using assms(2,3) by (auto simp: h1_def snd_p_diag_loop first_recs_def)
  finally show ?thesis .
qed

subsection \<open>The recognizer writes these records\<close>

lemma head_of_push: "head_of (bcell_push m A r) = [A \<mapsto> r] ++ head_of m"
  by (auto simp: head_of_def bcell_push_def map_add_def fun_eq_iff
      split: option.splits list.splits)

lemma head_of_empty: "head_of Map.empty = Map.empty"
  by (simp add: head_of_def)

lemma diag_prod_simh:
  "i < n \<Longrightarrow> sim_head n st fh \<Longrightarrow>
     \<exists>st'. diag_prod tok i A pr st = Inr st' \<and> sim_head n st' (p_diag_prod tok i A pr fh)"
  by (cases st; cases fh)
     (auto simp: sim_head_def diag_prod_def p_diag_prod_def at2_dims dims_upd2 cells_insert
        nth_upd2 head_of_push head_fill_apply)

lemma diag_loop_simh:
  assumes "length w = n" "sim_head n st fh"
  shows "\<exists>st'. diag_loop G w st = Inr st' \<and> sim_head n st' (p_diag_loop G w fh)"
proof -
  let ?R = "sim_head n"
  have dv: "\<exists>st'. diag_var G tok i A st = Inr st' \<and> ?R st' (p_diag_var G tok i A fh)"
    if "i < n" "?R st fh" for tok i A st fh
    unfolding diag_var_def p_diag_var_def
    by (rule foldE_sim [where R = ?R, OF that(2)]) (rule diag_prod_simh [OF that(1)])
  have dp: "\<exists>st'. diag_pos G w i st = Inr st' \<and> ?R st' (p_diag_pos G w i fh)"
    if "i < n" "?R st fh" for i st fh
    unfolding diag_pos_def p_diag_pos_def
    by (rule foldE_sim [where R = ?R, OF that(2)]) (rule dv [OF that(1)])
  show ?thesis
    unfolding diag_loop_def p_diag_loop_def
    by (rule foldE_sim [where R = ?R, OF assms(2)]) (rule dp, use assms(1) in simp_all)
qed

lemma bin_prod_simh:
  "i < n \<Longrightarrow> j < n \<Longrightarrow> k < n \<Longrightarrow> k + 1 < n \<Longrightarrow> sim_head n st fh \<Longrightarrow>
     \<exists>st'. bin_prod i j k A pr st = Inr st' \<and> sim_head n st' (p_bin_prod i j k A pr fh)"
  by (cases st; cases fh)
     (auto simp: sim_head_def bin_prod_def p_bin_prod_def bin_cond_def at2_dims dims_upd2
        cells_insert nth_upd2 head_of_push head_fill_apply,
      auto simp: cells_def)

lemma upper_loop_simh:
  assumes "sim_head n st fh"
  shows "\<exists>st'. upper_loop G n st = Inr st' \<and> sim_head n st' (p_upper_loop G n fh)"
proof -
  let ?R = "sim_head n"
  have bv: "\<exists>st'. bin_var G i j k A st = Inr st' \<and> ?R st' (p_bin_var G i j k A fh)"
    if "?R st fh" "i < n" "j < n" "k < n" "k + 1 < n" for i j k A st fh
    unfolding bin_var_def p_bin_var_def
    by (rule foldE_sim [where R = ?R, OF that(1)]) (rule bin_prod_simh [OF that(2-5)])
  have bs: "\<exists>st'. bin_split G i j k st = Inr st' \<and> ?R st' (p_bin_split G i j k fh)"
    if "?R st fh" "i < n" "j < n" "k < n" "k + 1 < n" for i j k st fh
    unfolding bin_split_def p_bin_split_def
    by (rule foldE_sim [where R = ?R, OF that(1)]) (rule bv [OF _ that(2-5)])
  have bc: "\<exists>st'. bin_cell G len i st = Inr st' \<and> ?R st' (p_bin_cell G len i fh)"
    if "?R st fh" "2 \<le> len" "i + len \<le> n" for len i st fh
    unfolding bin_cell_def p_bin_cell_def Let_def
    by (rule foldE_sim [where R = ?R, OF that(1)]) (rule bs, use that in auto)
  have bl: "\<exists>st'. bin_len G n len st = Inr st' \<and> ?R st' (p_bin_len G n len fh)"
    if "?R st fh" "2 \<le> len" "len \<le> n" for len st fh
    unfolding bin_len_def p_bin_len_def
    by (rule foldE_sim [where R = ?R, OF that(1)]) (rule bc, use that in auto)
  show ?thesis
    unfolding upper_loop_def p_upper_loop_def
    by (rule foldE_sim [where R = ?R, OF assms]) (rule bl, auto)
qed

lemma cyk_fill_simh:
  assumes "length w = n" "sim_head n st fh"
  shows "\<exists>st'. cyk_fill G w st = Inr st' \<and> sim_head n st' (p_fill G w fh)"
proof -
  from diag_loop_simh [OF assms] obtain st1 where
    "diag_loop G w st = Inr st1" "sim_head n st1 (p_diag_loop G w fh)" by blast
  with upper_loop_simh [of n st1 _ G] assms(1) show ?thesis
    by (auto simp: cyk_fill_def p_fill_def)
qed

lemma cykWithPointers_heads:
  assumes "w \<noteq> []"
  shows "\<exists>t b. cykWithPointers w G =
            Inr \<lparr>cyk_result.accepted = (startSymbol G \<in> dom (b ! 0 ! (length w - 1))),
                 table = t, backptrs = b\<rparr>
          \<and> back_inv (length w) w b \<and> dims (length w) t
          \<and> cells t = f_fill G w (cells (init_table (length w)))
          \<and> (\<forall>i j. i \<le> j \<longrightarrow> j < length w \<longrightarrow> head_of (b ! i ! j) = first_recs G w i j)"
proof -
  let ?n = "length w"
  let ?h0 = "\<lambda>(i::nat) (j::nat). (Map.empty :: symbol \<rightharpoonup> backptr)"
  let ?f0 = "cells (init_table ?n)"
  from cyk_fill_inv [OF ptr_inv_init [of "length w" w], of G] obtain t b where
    run: "cyk_fill G w (init_table ?n, init_back ?n) = Inr (t, b)"
    and inv: "ptr_inv ?n w (t, b)"
    by auto
  have "sim_head ?n (init_table ?n, init_back ?n) (?f0, ?h0)"
    by (simp add: sim_head_def init_table_def init_back_def dims_replicate head_of_empty)
  from cyk_fill_simh [OF refl this, of G] run
  have sim: "sim_head ?n (t, b) (p_fill G w (?f0, ?h0))" by simp
  from assms have pos: "0 < ?n" "?n - 1 < ?n" by simp_all
  from inv have d: "dims ?n t" and bi: "back_inv ?n w b"
    and link: "t ! 0 ! (?n - 1) = dom (b ! 0 ! (?n - 1))"
    using pos by (simp_all add: ptr_inv_def)
  from sim have c: "cells t = f_fill G w ?f0"
    by (simp add: sim_head_def fst_p_fill)
  have hd: "head_of (b ! i ! j) = first_recs G w i j" if "i \<le> j" "j < ?n" for i j
  proof -
    from sim that have "head_of (b ! i ! j) = snd (p_fill G w (?f0, ?h0)) i j"
      by (simp add: sim_head_def)
    also have "\<dots> = first_recs G w i j"
      by (rule p_fill_heads) (use that in \<open>simp_all add: cells_init_table\<close>)
    finally show ?thesis .
  qed
  have "has_start G ?n t = Inr (startSymbol G \<in> dom (b ! 0 ! (?n - 1)))"
    using at2_dims [OF d pos] link by (simp add: has_start_def)
  with run assms bi d c hd show ?thesis
    by (auto simp: cykWithPointers_def Let_def)
qed

lemma choose_rec_first_tree:
  assumes inv: "back_inv (length w) w b"
    and heads: "\<And>i j. i \<le> j \<Longrightarrow> j < length w \<Longrightarrow> head_of (b ! i ! j) = first_recs G w i j"
  shows "i \<le> j \<Longrightarrow> j < length w \<Longrightarrow> choose_rec b A i j = Some (Inr (first_tree G w A i j))"
proof (induction "j - i" arbitrary: A i j rule: less_induct)
  case less
  let ?n = "length w"
  from inv have db: "dims ?n b" by (simp add: back_inv_def)
  from less.prems have i: "i < ?n" by simp
  note rd = at2_dims [OF db i less.prems(2)]
  note hd = heads [OF less.prems, THEN fun_cong, of A]
  show ?case
  proof (cases "(b ! i ! j) A")
    case None
    with hd have "first_recs G w i j A = None" by (simp add: head_of_def)
    then have "first_tree G w A i j = Node A"
      by (subst first_tree.simps) simp
    moreover have "choose_rec b A i j = Some (Inr (Node A))"
      by (subst choose_rec.simps) (simp add: rd None)
    ultimately show ?thesis by simp
  next
    case (Some rs)
    with inv i less.prems(2) have ne: "rs \<noteq> []" and ok: "\<forall>r \<in> set rs. bp_ok b w i j r"
      by (auto simp: back_inv_def)
    from ne obtain first rest where fr: "rs = first # rest" by (cases rs) auto
    with ok have okf: "bp_ok b w i j first" by simp
    from hd Some fr have fs: "first_recs G w i j A = Some first" by (simp add: head_of_def)
    show ?thesis
    proof (cases first)
      case (Terminal tok)
      with fs have "first_tree G w A i j = NodeChild A tok"
        by (subst first_tree.simps) simp
      moreover have "choose_rec b A i j = Some (Inr (NodeChild A tok))"
        by (subst choose_rec.simps) (simp add: rd Some fr Terminal)
      ultimately show ?thesis by simp
    next
      case (Binary B C k)
      with okf have k: "i \<le> k" "k < j" by simp_all
      from k less.prems have lt: "k < ?n" "Suc k \<le> j" by simp_all
      from k have m1: "k - i < j - i" and m2: "j - Suc k < j - i" by simp_all
      note l = less.hyps [OF m1 k(1) lt(1), of B]
      note r = less.hyps [OF m2 lt(2) less.prems(2), of C]
      from fs Binary have "first_tree G w A i j
          = NodeLR A (first_tree G w B i k) (first_tree G w C (Suc k) j)"
        by (subst first_tree.simps) simp
      moreover have "choose_rec b A i j
          = Some (Inr (NodeLR A (first_tree G w B i k) (first_tree G w C (Suc k) j)))"
        by (subst choose_rec.simps) (simp add: rd Some fr Binary l r)
      ultimately show ?thesis by simp
    qed
  qed
qed

lemma table_D_table:
  assumes "dims (length w) t" "cells t = f_fill G w (cells (init_table (length w)))"
  shows "t = D_table G w"
proof (rule nth_equalityI)
  from assms(1) show len: "length t = length (D_table G w)"
    by (simp add: dims_def D_table_def)
  fix i assume "i < length t"
  with assms(1) have i: "i < length w" and li: "length (t ! i) = length w"
    by (simp_all add: dims_def list_all_length)
  show "t ! i = D_table G w ! i"
  proof (rule nth_equalityI)
    from i li show "length (t ! i) = length (D_table G w ! i)"
      by (simp add: D_table_def)
    fix j assume "j < length (t ! i)"
    with li have j: "j < length w" by simp
    have "t ! i ! j = f_fill G w (cells (init_table (length w))) i j"
      using assms(2) by (simp add: cells_def fun_eq_iff)
    also have "\<dots> = (if i \<le> j then D G w i j else {})"
    proof (cases "i \<le> j")
      case True
      with j have "f_fill G w (cells (init_table (length w))) i j = D G w i j"
        by (intro f_fill_D) (simp_all add: cells_init_table)
      with True show ?thesis by simp
    next
      case False
      then have "f_fill G w (cells (init_table (length w))) i j = cells (init_table (length w)) i j"
        by (intro f_fill_frame) simp
      with False i j show ?thesis by (simp add: cells_init_table)
    qed
    finally show "t ! i ! j = D_table G w ! i ! j"
      using i j by (simp add: D_table_def)
  qed
qed

section \<open>Unfolding the model on concrete inputs\<close>

lemmas eval_keys = object_keys_def obj_get_def array_index_def is_digit_def digits_val_def js_def

lemmas eval_cyk = cykWithPointers_def cyk_fill_def diag_loop_def diag_pos_def diag_var_def
  diag_prod_def upper_loop_def bin_len_def bin_cell_def bin_split_def bin_var_def bin_prod_def
  has_start_def at2_def upd2_def init_table_def init_back_def bcell_push_def

lemmas eval_trace = cykAlgorithm_def trace_fill_def trace_diag_loop_def trace_diag_pos_def
  trace_diag_var_def trace_diag_prod_def trace_upper_loop_def trace_bin_len_def trace_bin_cell_def
  trace_bin_split_def trace_bin_var_def trace_bin_prod_def has_start_def at2_def upd2_def
  init_table_def

lemmas eval_str = js_def is_ws_def non_ws_def trim_def split_ws.simps indexOf_def
lemmas eval_parse = parseGrammarFromText_def grammar_lines_def process_line_def arrow_split_def
  add_production_def quotedMatch_def is_lower_letter_def is_upper_pair_def rules_push_def
  rules_init_def set_add_def object_prototype_names_def

lemma example_run:
  "(case cykWithPointers [js ''a'', js ''b''] exampleGrammar of
      Inl e \<Rightarrow> None
    | Inr r \<Rightarrow>
        if cyk_result.accepted r
        then buildParseTree exampleGrammar [js ''a'', js ''b''] (backptrs r)
        else None)
   = Some (Inr (Some (NodeLR (js ''S'') (NodeChild (js ''A'') (js ''a''))
                        (NodeChild (js ''B'') (js ''b'')))))"
  by (simp add: exampleGrammar_def eval_keys eval_cyk buildParseTree_def choose_rec.simps)


lemma tie_run:
  "(case cykWithPointers [js ''a'', js ''a'', js ''a''] tieGrammar of
      Inl e \<Rightarrow> None
    | Inr r \<Rightarrow>
        Some (cyk_result.accepted r, (backptrs r ! 0 ! 2) (js ''S''), (backptrs r ! 1 ! 2) (js ''S''),
              buildParseTree tieGrammar [js ''a'', js ''a'', js ''a''] (backptrs r)))
   = Some (True,
           Some [Binary (js ''S'') (js ''S'') 0, Binary (js ''S'') (js ''S'') 1,
                 Binary (js ''S'') (js ''T'') 1],
           Some [Binary (js ''S'') (js ''S'') 1, Binary (js ''S'') (js ''T'') 1],
           Some (Inr (Some (NodeLR (js ''S'') (NodeChild (js ''S'') (js ''a''))
                        (NodeLR (js ''S'') (NodeChild (js ''S'') (js ''a''))
                           (NodeChild (js ''S'') (js ''a'')))))))"
  by (simp add: tieGrammar_def eval_keys eval_cyk buildParseTree_def choose_rec.simps Let_def)

text \<open>
  A left-hand side that names a property inherited from \<^verbatim>\<open>Object.prototype\<close> makes the
  compilation throw: \<^verbatim>\<open>rules["toString"]\<close> is a function, which has no \<^verbatim>\<open>push\<close>.
\<close>

lemma inherited_name_raises: "parseGrammarFromText (js ''toString -> a'') = Inl TypeError"
  by (simp add: eval_parse eval_str Let_def)
section \<open>Correctness of the recognizer\<close>

text \<open>
  Claim C1. For every grammar in Chomsky normal form and every token sequence,
  \<open>cykWithPointers\<close> returns, and its \<open>accepted\<close> flag is true exactly when the start
  symbol derives the sequence. A grammar is in normal form when each production it holds
  is one terminal (an array of one string) or two variables (an array of two strings);
  derivation is rewriting of sentential forms, \<open>generates\<close>, defined without the table.
\<close>

theorem cykWithPointers_correct:
  assumes "cnf G"
  shows "\<exists>r. cykWithPointers w G = Inr r \<and> (cyk_result.accepted r \<longleftrightarrow> generates G w)"
proof (cases "w = []")
  case True
  have "\<not> derives G (startSymbol G) []" by (auto dest: derives_nonempty)
  with True assms show ?thesis
    by (simp add: cykWithPointers_def generates_derives)
next
  case False
  from cykWithPointers_derives [OF False, of G] assms show ?thesis
    by (simp add: generates_derives)
qed

theorem cykWithPointers_correct_witness:
  "cnf exampleGrammar
   \<and> map_sum id cyk_result.accepted (cykWithPointers [js ''a'', js ''b''] exampleGrammar) = Inr True
   \<and> generates exampleGrammar [js ''a'', js ''b'']
   \<and> map_sum id cyk_result.accepted (cykWithPointers [js ''a'', js ''a''] exampleGrammar) = Inr False
   \<and> \<not> generates exampleGrammar [js ''a'', js ''a'']"
proof -
  have c: "cnf exampleGrammar"
    by (simp add: cnf_def exampleGrammar_def eval_keys)
  have ab: "map_sum id cyk_result.accepted (cykWithPointers [js ''a'', js ''b''] exampleGrammar) = Inr True"
    by (simp add: exampleGrammar_def eval_keys eval_cyk)
  have aa: "map_sum id cyk_result.accepted (cykWithPointers [js ''a'', js ''a''] exampleGrammar) = Inr False"
    by (simp add: exampleGrammar_def eval_keys eval_cyk)
  from cykWithPointers_correct [OF c, of "[js ''a'', js ''b'']"] ab
  have g1: "generates exampleGrammar [js ''a'', js ''b'']" by auto
  from cykWithPointers_correct [OF c, of "[js ''a'', js ''a'']"] aa
  have g2: "\<not> generates exampleGrammar [js ''a'', js ''a'']" by auto
  from c ab aa g1 g2 show ?thesis by simp
qed

section \<open>The two recognizers agree\<close>

text \<open>
  Claim C2. For every grammar and every token sequence, \<open>cykAlgorithm\<close> and
  \<open>cykWithPointers\<close> both return, with the same \<open>accepted\<close> flag and the same table:
  the same set of variables in every cell.
\<close>

theorem recognizers_agree:
  "\<exists>r r'. cykWithPointers w G = Inr r \<and> cykAlgorithm w G = Inr r'
      \<and> accepted r' = cyk_result.accepted r \<and> table r' = cyk_result.table r"
proof (cases "w = []")
  case True
  then show ?thesis by (simp add: cykWithPointers_def cykAlgorithm_def)
next
  case False
  from cykWithPointers_run [OF False, of G] obtain t b where
    p: "cykWithPointers w G =
          Inr \<lparr>cyk_result.accepted =
                 (startSymbol G \<in> f_fill G w (cells (init_table (length w))) 0 (length w - 1)),
               table = t, backptrs = b\<rparr>"
    "dims (length w) t" "cells t = f_fill G w (cells (init_table (length w)))"
    by blast
  from cykAlgorithm_run [OF False, of G] obtain t' ss where
    q: "cykAlgorithm w G =
          Inr \<lparr>accepted =
                 (startSymbol G \<in> f_fill G w (cells (init_table (length w))) 0 (length w - 1)),
               table = t', steps = ss\<rparr>"
    "dims (length w) t'" "cells t' = f_fill G w (cells (init_table (length w)))"
    by blast
  have "t = t'" using p(2,3) q(2,3) by (auto intro: dims_cells_eq)
  with p(1) q(1) show ?thesis by simp
qed
section \<open>The start symbol of a compiled grammar\<close>

text \<open>
  Claim C3, as amended. The start symbol is set by the line with index 0 only
  (\<^verbatim>\<open>if (idx === 0 && left) startSymbol = left\<close>): when the first non-empty line of the
  text has an arrow and a non-empty left-hand side, the start symbol of the compiled
  grammar is that left-hand side; in every other case it is the initial value \<open>S\<close>.
\<close>

theorem startSymbol_first_line:
  assumes "parseGrammarFromText text = Inr g"
  shows "startSymbol g =
     (case grammar_lines text of
        [] \<Rightarrow> js ''S''
      | l # ls \<Rightarrow>
          (case arrow_split l of
             None \<Rightarrow> js ''S''
           | Some (left, right) \<Rightarrow> if left \<noteq> [] then left else js ''S''))"
proof -
  let ?st0 = "\<lparr>ps_rules = [], ps_variablesSet = [], ps_terminalsSet = [],
              ps_startSymbol = js ''S''\<rparr>"
  let ?ls = "grammar_lines text"
  from assms obtain st where run: "foldE process_line (zip [0 ..< length ?ls] ?ls) ?st0 = Inr st"
    and g: "startSymbol g = ps_startSymbol st"
    by (auto simp: parseGrammarFromText_def Let_def split: sum.splits)
  show ?thesis
  proof (cases ?ls)
    case Nil
    with run g show ?thesis by auto
  next
    case (Cons l ls)
    then have z: "zip [0 ..< length ?ls] ?ls = (0, l) # zip [1 ..< Suc (length ls)] ls"
      by (simp add: upt_conv_Cons del: upt_Suc)
    from run z obtain s1 where s1: "process_line (0, l) ?st0 = Inr s1"
      and rest: "foldE process_line (zip [1 ..< Suc (length ls)] ls) s1 = Inr st"
      by (cases "process_line (0, l) ?st0") simp_all
    have "\<forall>il \<in> set (zip [1 ..< Suc (length ls)] ls). fst il \<noteq> 0"
      by (auto dest!: set_zip_leftD)
    from later_lines_start [OF rest this] have "ps_startSymbol st = ps_startSymbol s1" .
    with process_line_start [OF s1] g Cons show ?thesis
      by (simp split: option.splits)
  qed
qed

theorem startSymbol_first_line_witness:
  "parseGrammarFromText (js ''A -> a'')
     = Inr \<lparr>variables = [js ''A''], terminals = [js ''a''], startSymbol = js ''A'',
            rules = [(js ''A'', [[js ''a'']])]\<rparr>
   \<and> grammar_lines (js ''A -> a'') = [js ''A -> a'']
   \<and> arrow_split (js ''A -> a'') = Some (js ''A'', js ''a'')"
proof -
  have p: "parseGrammarFromText (js ''A -> a'')
     = Inr \<lparr>variables = [js ''A''], terminals = [js ''a''], startSymbol = js ''A'',
            rules = [(js ''A'', [[js ''a'']])]\<rparr>"
    by (simp add: eval_parse eval_str Let_def)
  have "grammar_lines (js ''A -> a'') = [js ''A -> a'']
      \<and> arrow_split (js ''A -> a'') = Some (js ''A'', js ''a'')"
    using startSymbol_first_line [OF p]
    by (simp add: eval_parse eval_str)
  with p show ?thesis by simp
qed

text \<open>
  The claim as stated fails: when the first line is skipped, the left-hand side \<open>A\<close> of
  the first line with an arrow does not become the start symbol.
\<close>

theorem startSymbol_first_line_counterexample:
  "parseGrammarFromText (js ''x'' @ [10] @ js ''A -> a'')
     = Inr \<lparr>variables = [js ''A''], terminals = [js ''a''], startSymbol = js ''S'',
            rules = [(js ''A'', [[js ''a'']])]\<rparr>
   \<and> grammar_lines (js ''x'' @ [10] @ js ''A -> a'') = [js ''x'', js ''A -> a'']
   \<and> arrow_split (js ''x'') = None
   \<and> arrow_split (js ''A -> a'') = Some (js ''A'', js ''a'')
   \<and> js ''A'' \<noteq> js ''S''"
  by (simp add: eval_parse eval_str Let_def)
section \<open>Where a line is cut\<close>




text \<open>
  For U+2192 the right-hand side starts two code units after the cut, as it does for the
  two units of \<open>->\<close>: the unit that follows the arrow is dropped.
\<close>

lemma unicode_arrow_loses_a_unit:
  "arrow_split (js ''S'' @ [8594] @ js ''AB'') = Some (js ''S'', js ''B'')"
  by (simp add: eval_parse eval_str)
section \<open>The tokens of an input string\<close>

text \<open>
  Claim C5, as amended. The simulator decides by the presence of a space (U+0020). A
  string with a space yields its white-space-delimited words when it has a character that
  is not white space, and one empty token when it is white space throughout. A string
  without a space yields the individual characters of the trimmed string, other white
  space inside it included; in particular a string without any white space yields its
  characters, and the empty string no token. The sentence tab has no character mode: it
  yields the white-space-delimited words of a string that has a character that is not
  white space, and one empty token otherwise.
\<close>

theorem tokenization_modes:
  "(32 \<in> set s \<longrightarrow> (\<exists>c \<in> set s. non_ws c) \<longrightarrow> simulator_tokens s = ws_words s)
   \<and> (32 \<in> set s \<longrightarrow> (\<forall>c \<in> set s. is_ws c) \<longrightarrow> simulator_tokens s = [[]])
   \<and> (32 \<notin> set s \<longrightarrow> simulator_tokens s = map (\<lambda>c. [c]) (trim s))
   \<and> ((\<forall>c \<in> set s. non_ws c) \<longrightarrow> simulator_tokens s = map (\<lambda>c. [c]) s)
   \<and> simulator_tokens [] = []
   \<and> ((\<exists>c \<in> set s. non_ws c) \<longrightarrow> pgc_tokens s = ws_words s)
   \<and> ((\<forall>c \<in> set s. is_ws c) \<longrightarrow> pgc_tokens s = [[]])"
proof (intro conjI impI)
  assume "32 \<in> set s" and ne: "\<exists>c \<in> set s. non_ws c"
  then show "simulator_tokens s = ws_words s"
    using trim_ends [OF ne] by (simp add: simulator_tokens_def split_ws_words ws_words_trim)
next
  assume "32 \<in> set s" "\<forall>c \<in> set s. is_ws c"
  then show "simulator_tokens s = [[]]"
    by (simp add: simulator_tokens_def trim_all_ws split_ws_Nil)
next
  assume "32 \<notin> set s"
  then show "simulator_tokens s = map (\<lambda>c. [c]) (trim s)"
    by (simp add: simulator_tokens_def)
next
  assume a: "\<forall>c \<in> set s. non_ws c"
  then have "32 \<notin> set s" by (auto simp: non_ws_def is_ws_def)
  with a show "simulator_tokens s = map (\<lambda>c. [c]) s"
    by (simp add: simulator_tokens_def trim_no_ws)
next
  show "simulator_tokens [] = []" by (simp add: simulator_tokens_def trim_def)
next
  assume ne: "\<exists>c \<in> set s. non_ws c"
  then show "pgc_tokens s = ws_words s"
    using trim_ends [OF ne] by (simp add: pgc_tokens_def split_ws_words ws_words_trim)
next
  assume "\<forall>c \<in> set s. is_ws c"
  then show "pgc_tokens s = [[]]"
    by (simp add: pgc_tokens_def trim_all_ws split_ws_Nil)
qed

theorem tokenization_modes_witness:
  "32 \<in> set (js ''a b'') \<and> list_ex non_ws (js ''a b'')
   \<and> simulator_tokens (js ''a b'') = [js ''a'', js ''b'']
   \<and> ws_words (js ''a b'') = [js ''a'', js ''b'']
   \<and> pgc_tokens (js ''a b'') = [js ''a'', js ''b'']
   \<and> 32 \<in> set (js ''  '') \<and> list_all is_ws (js ''  '')
   \<and> simulator_tokens (js ''  '') = [[]] \<and> pgc_tokens (js ''  '') = [[]]
   \<and> 32 \<notin> set ([9] @ js ''ab'') \<and> trim ([9] @ js ''ab'') = js ''ab''
   \<and> simulator_tokens ([9] @ js ''ab'') = [js ''a'', js ''b'']
   \<and> list_all non_ws (js ''ab'')
   \<and> simulator_tokens (js ''ab'') = [js ''a'', js ''b'']"
proof -
  have h: "32 \<in> set (js ''a b'')" "\<exists>c \<in> set (js ''a b''). non_ws c"
    "\<forall>c \<in> set (js ''ab''). non_ws c"
    "32 \<in> set (js ''  '')" "\<forall>c \<in> set (js ''  ''). is_ws c"
    "32 \<notin> set ([9] @ js ''ab'')"
    by (simp_all add: eval_str)
  have e: "simulator_tokens (js ''a b'') = [js ''a'', js ''b'']"
    "trim ([9] @ js ''ab'') = js ''ab''"
    by (simp_all add: simulator_tokens_def eval_str)
  note c2 = conjunct2
  note t = tokenization_modes [of "js ''a b''", THEN conjunct1, THEN mp, THEN mp, OF h(1,2)]
    tokenization_modes [of "js ''a b''", THEN c2, THEN c2, THEN c2, THEN c2, THEN c2,
      THEN conjunct1, THEN mp, OF h(2)]
    tokenization_modes [of "js ''ab''", THEN c2, THEN c2, THEN c2, THEN conjunct1, THEN mp, OF h(3)]
    tokenization_modes [of "js ''  ''", THEN c2, THEN conjunct1, THEN mp, THEN mp, OF h(4,5)]
    tokenization_modes [of "js ''  ''", THEN c2, THEN c2, THEN c2, THEN c2, THEN c2, THEN c2,
      THEN mp, OF h(5)]
    tokenization_modes [of "[9] @ js ''ab''", THEN c2, THEN c2, THEN conjunct1, THEN mp, OF h(6)]
  from t e have "ws_words (js ''a b'') = [js ''a'', js ''b'']"
    "pgc_tokens (js ''a b'') = [js ''a'', js ''b'']"
    "simulator_tokens (js ''ab'') = [js ''a'', js ''b'']"
    "simulator_tokens (js ''  '') = [[]]" "pgc_tokens (js ''  '') = [[]]"
    "simulator_tokens ([9] @ js ''ab'') = [js ''a'', js ''b'']"
    by (simp_all add: js_def)
  with h e show ?thesis
    by (simp add: list_ex_iff list_all_iff)
qed

text \<open>
  The claim as stated fails: the simulator tests for a space, so a string whose only white
  space is a tab is split into its characters, the tab among them.
\<close>

theorem tokenization_modes_counterexample:
  "is_ws 9
   \<and> simulator_tokens (js ''a'' @ [9] @ js ''b'') = [js ''a'', [9], js ''b'']
   \<and> ws_words (js ''a'' @ [9] @ js ''b'') = [js ''a'', js ''b'']"
  by (simp add: simulator_tokens_def eval_str ws_words.simps)

lemma sentence_tab_has_no_character_mode: "pgc_tokens (js ''ab'') = [js ''ab'']"
  by (simp add: pgc_tokens_def eval_str)

lemma only_spaces_give_one_empty_token:
  "simulator_tokens (js ''  '') = [[]] \<and> pgc_tokens [] = [[]]"
  by (simp add: simulator_tokens_def pgc_tokens_def eval_str)
section \<open>Determinism\<close>

text \<open>
  Claim C6. The recognizer and the tree builder return for every grammar and token
  sequence, and each output is a function of the grammar and the tokens that does not
  mention the run: \<open>accepted\<close> says whether the start symbol derives the tokens, the table
  holds in every cell \<open>i \<le> j\<close> the variables that derive the span and nothing below the
  diagonal, and the tree of an accepted input is \<open>first_tree\<close>, which at every node takes
  the least split and there the first production in the order of the grammar, the record
  that the recognizer writes first. So two calls with the same grammar and tokens return
  the same flag, table and tree. The tree is fixed by the first record of each list:
  dropping every later record from the backpointers leaves it unchanged.
\<close>

theorem recognition_deterministic:
  "\<exists>r. cykWithPointers w G = Inr r
     \<and> cyk_result.accepted r = derives G (startSymbol G) w
     \<and> cyk_result.table r = D_table G w
     \<and> buildParseTree G w (backptrs r)
         = Some (Inr (if derives G (startSymbol G) w
                      then Some (first_tree G w (startSymbol G) 0 (length w - 1)) else None))
     \<and> buildParseTree G w (first_only (backptrs r)) = buildParseTree G w (backptrs r)"
proof (cases "w = []")
  case True
  have "\<not> derives G (startSymbol G) []" by (auto dest: derives_nonempty)
  with True show ?thesis
    by (simp add: cykWithPointers_def buildParseTree_def D_table_def first_only_def)
next
  case False
  let ?n = "length w" and ?S = "startSymbol G"
  from cykWithPointers_heads [OF False, of G] obtain t b where
    run: "cykWithPointers w G =
            Inr \<lparr>cyk_result.accepted = (?S \<in> dom (b ! 0 ! (?n - 1))), table = t, backptrs = b\<rparr>"
    and inv: "back_inv ?n w b" and d: "dims ?n t"
    and c: "cells t = f_fill G w (cells (init_table ?n))"
    and hd: "\<And>i j. i \<le> j \<Longrightarrow> j < ?n \<Longrightarrow> head_of (b ! i ! j) = first_recs G w i j"
    by blast
  define r where
    "r = \<lparr>cyk_result.accepted = (?S \<in> dom (b ! 0 ! (?n - 1))), table = t, backptrs = b\<rparr>"
  from run have rr: "cykWithPointers w G = Inr r" by (simp add: r_def)
  from cykWithPointers_derives [OF False, of G] rr
  have acc: "cyk_result.accepted r = derives G ?S w" by auto
  have tab: "cyk_result.table r = D_table G w"
    using table_D_table [OF d c] by (simp add: r_def)
  from inv have db: "dims ?n b" by (simp add: back_inv_def)
  from False have pos: "0 < ?n" "?n - 1 < ?n" by simp_all
  note rd = at2_dims [OF db pos]
  have ch: "choose_rec b ?S 0 (?n - 1) = Some (Inr (first_tree G w ?S 0 (?n - 1)))"
    by (rule choose_rec_first_tree [OF inv hd]) (use pos in simp_all)
  from acc have "derives G ?S w \<longleftrightarrow> (b ! 0 ! (?n - 1)) ?S \<noteq> None"
    by (simp add: r_def dom_def)
  with False have tree: "buildParseTree G w (backptrs r)
      = Some (Inr (if derives G ?S w then Some (first_tree G w ?S 0 (?n - 1)) else None))"
    using rd ch by (simp add: buildParseTree_def Let_def r_def)
  from buildParseTree_result [OF rr]
  have "buildParseTree G w (first_only (backptrs r)) = buildParseTree G w (backptrs r)"
    by simp
  with rr acc tab tree show ?thesis by blast
qed

theorem recognition_deterministic_witness:
  "\<exists>r. cykWithPointers [js ''a'', js ''a'', js ''a''] tieGrammar = Inr r
     \<and> cyk_result.accepted r
     \<and> derives tieGrammar (js ''S'') [js ''a'', js ''a'', js ''a'']
     \<and> (backptrs r ! 0 ! 2) (js ''S'')
         = Some [Binary (js ''S'') (js ''S'') 0, Binary (js ''S'') (js ''S'') 1,
                 Binary (js ''S'') (js ''T'') 1]
     \<and> (backptrs r ! 1 ! 2) (js ''S'')
         = Some [Binary (js ''S'') (js ''S'') 1, Binary (js ''S'') (js ''T'') 1]
     \<and> buildParseTree tieGrammar [js ''a'', js ''a'', js ''a''] (backptrs r)
         = Some (Inr (Some (NodeLR (js ''S'') (NodeChild (js ''S'') (js ''a''))
                        (NodeLR (js ''S'') (NodeChild (js ''S'') (js ''a''))
                           (NodeChild (js ''S'') (js ''a''))))))
     \<and> first_tree tieGrammar [js ''a'', js ''a'', js ''a''] (js ''S'') 0 2
         = NodeLR (js ''S'') (NodeChild (js ''S'') (js ''a''))
                        (NodeLR (js ''S'') (NodeChild (js ''S'') (js ''a''))
                           (NodeChild (js ''S'') (js ''a'')))"
proof -
  let ?w = "[js ''a'', js ''a'', js ''a'']"
  have s: "startSymbol tieGrammar = js ''S''" by (simp add: tieGrammar_def)
  from recognition_deterministic [of ?w tieGrammar]
  obtain r where r: "cykWithPointers ?w tieGrammar = Inr r"
    and acc: "cyk_result.accepted r = derives tieGrammar (js ''S'') ?w"
    and tree: "buildParseTree tieGrammar ?w (backptrs r)
         = Some (Inr (if derives tieGrammar (js ''S'') ?w
                      then Some (first_tree tieGrammar ?w (js ''S'') 0 (length ?w - 1)) else None))"
    unfolding s by (elim exE conjE) (rule that)
  from tie_run r have a: "cyk_result.accepted r" by simp
  with acc have dv: "derives tieGrammar (js ''S'') ?w" by simp
  from tie_run r tree dv show ?thesis
    by (intro exI [of _ r]) (simp add: numeral_2_eq_2)
qed
section \<open>The cells below the diagonal\<close>

text \<open>
  Claim C7. In both recognizers a cell \<open>table[i][j]\<close> with \<open>i > j\<close> is never written and
  never read. The loops are run on arbitrary tables of the right size: a cell below the
  diagonal keeps the value it had (it is never written), and two runs whose tables differ
  only below the diagonal produce the same cells on and above the diagonal and the same
  \<open>accepted\<close> flag (the cells below are never read). In the result of either recognizer
  every cell below the diagonal is the empty set.
\<close>

theorem lower_triangle_untouched:
  assumes "dims (length w) t" "dims (length w) t'" "dims (length w) b"
    and "\<forall>i j. i \<le> j \<longrightarrow> j < length w \<longrightarrow> t ! i ! j = t' ! i ! j"
  shows "\<exists>t1 b1 t2 b2 u1 s1 u2 s2.
      cyk_fill G w (t, b) = Inr (t1, b1) \<and> cyk_fill G w (t', b) = Inr (t2, b2)
    \<and> trace_fill G w (t, ss) = Inr (u1, s1) \<and> trace_fill G w (t', ss) = Inr (u2, s2)
    \<and> (\<forall>i j. j < i \<longrightarrow> i < length w \<longrightarrow> t1 ! i ! j = t ! i ! j \<and> u1 ! i ! j = t ! i ! j)
    \<and> (\<forall>i j. i \<le> j \<longrightarrow> j < length w \<longrightarrow> t1 ! i ! j = t2 ! i ! j \<and> u1 ! i ! j = u2 ! i ! j)
    \<and> has_start G (length w) t1 = has_start G (length w) t2
    \<and> has_start G (length w) u1 = has_start G (length w) u2
    \<and> (\<forall>r. cykWithPointers w G = Inr r \<longrightarrow>
          (\<forall>i j. j < i \<longrightarrow> i < length w \<longrightarrow> cyk_result.table r ! i ! j = {}))
    \<and> (\<forall>r. cykAlgorithm w G = Inr r \<longrightarrow>
          (\<forall>i j. j < i \<longrightarrow> i < length w \<longrightarrow> table r ! i ! j = {}))"
proof -
  let ?n = "length w"
  let ?F = "f_fill G w (cells t)" and ?F' = "f_fill G w (cells t')"
  have ag: "agree ?n (cells t) (cells t')"
    using assms(4) by (simp add: agree_def cells_def)
  then have AG: "agree ?n ?F ?F'" by (rule f_fill_agree)
  from cyk_fill_sim [OF refl, of w "(t, b)" "cells t" G] assms
  obtain t1 b1 where r1: "cyk_fill G w (t, b) = Inr (t1, b1)"
    and s1: "dims ?n t1" "cells t1 = ?F"
    by (auto simp: sim_ptr_def)
  from cyk_fill_sim [OF refl, of w "(t', b)" "cells t'" G] assms
  obtain t2 b2 where r2: "cyk_fill G w (t', b) = Inr (t2, b2)"
    and s2: "dims ?n t2" "cells t2 = ?F'"
    by (auto simp: sim_ptr_def)
  from trace_fill_sim [OF refl, of w "(t, ss)" "cells t" G] assms
  obtain u1 x1 where r3: "trace_fill G w (t, ss) = Inr (u1, x1)"
    and s3: "dims ?n u1" "cells u1 = ?F"
    by (auto simp: sim_trace_def)
  from trace_fill_sim [OF refl, of w "(t', ss)" "cells t'" G] assms
  obtain u2 x2 where r4: "trace_fill G w (t', ss) = Inr (u2, x2)"
    and s4: "dims ?n u2" "cells u2 = ?F'"
    by (auto simp: sim_trace_def)
  have nth: "\<And>i j. t1 ! i ! j = ?F i j" "\<And>i j. t2 ! i ! j = ?F' i j"
    "\<And>i j. u1 ! i ! j = ?F i j" "\<And>i j. u2 ! i ! j = ?F' i j"
    using s1(2) s2(2) s3(2) s4(2) by (simp_all add: cells_def fun_eq_iff)
  have frame: "\<forall>i j. j < i \<longrightarrow> i < ?n \<longrightarrow> t1 ! i ! j = t ! i ! j \<and> u1 ! i ! j = t ! i ! j"
    by (simp add: nth f_fill_frame) (simp add: cells_def)
  have indep: "\<forall>i j. i \<le> j \<longrightarrow> j < ?n \<longrightarrow> t1 ! i ! j = t2 ! i ! j \<and> u1 ! i ! j = u2 ! i ! j"
    using AG by (simp add: nth agree_def)
  have hs: "has_start G ?n t1 = has_start G ?n t2 \<and> has_start G ?n u1 = has_start G ?n u2"
  proof (cases "w = []")
    case True
    with s1(1) s2(1) s3(1) s4(1) show ?thesis
      by (simp add: has_start_def at2_def dims_def)
  next
    case False
    then have pos: "0 < ?n" "?n - 1 < ?n" by simp_all
    from AG pos have "?F 0 (?n - 1) = ?F' 0 (?n - 1)" by (simp add: agree_def)
    then show ?thesis
      using at2_dims [OF s1(1) pos] at2_dims [OF s2(1) pos]
        at2_dims [OF s3(1) pos] at2_dims [OF s4(1) pos]
      by (simp add: has_start_def nth)
  qed
  have fin1: "\<forall>r. cykWithPointers w G = Inr r \<longrightarrow>
          (\<forall>i j. j < i \<longrightarrow> i < ?n \<longrightarrow> cyk_result.table r ! i ! j = {})"
  proof (cases "w = []")
    case True
    then show ?thesis by simp
  next
    case False
    from cykWithPointers_run [OF False, of G] obtain tt bb where
      "cykWithPointers w G = Inr \<lparr>cyk_result.accepted =
                 (startSymbol G \<in> f_fill G w (cells (init_table ?n)) 0 (?n - 1)),
               table = tt, backptrs = bb\<rparr>"
      "cells tt = f_fill G w (cells (init_table ?n))"
      by blast
    moreover have "\<And>i j. j < i \<Longrightarrow> i < ?n \<Longrightarrow> cells tt i j = {}"
      by (simp add: calculation(2) f_fill_frame cells_init_table)
    then have "\<And>i j. j < i \<Longrightarrow> i < ?n \<Longrightarrow> tt ! i ! j = {}"
      by (simp add: cells_def)
    ultimately show ?thesis by auto
  qed
  have fin2: "\<forall>r. cykAlgorithm w G = Inr r \<longrightarrow>
          (\<forall>i j. j < i \<longrightarrow> i < ?n \<longrightarrow> table r ! i ! j = {})"
  proof (cases "w = []")
    case True
    then show ?thesis by simp
  next
    case False
    from cykAlgorithm_run [OF False, of G] obtain tt sx where
      "cykAlgorithm w G = Inr \<lparr>accepted =
                 (startSymbol G \<in> f_fill G w (cells (init_table ?n)) 0 (?n - 1)),
               table = tt, steps = sx\<rparr>"
      "cells tt = f_fill G w (cells (init_table ?n))"
      by blast
    moreover have "\<And>i j. j < i \<Longrightarrow> i < ?n \<Longrightarrow> cells tt i j = {}"
      by (simp add: calculation(2) f_fill_frame cells_init_table)
    then have "\<And>i j. j < i \<Longrightarrow> i < ?n \<Longrightarrow> tt ! i ! j = {}"
      by (simp add: cells_def)
    ultimately show ?thesis by auto
  qed
  from r1 r2 r3 r4 frame indep hs fin1 fin2 show ?thesis by blast
qed

theorem lower_triangle_untouched_witness:
  "dims 2 [[{}, {}], [{js ''X''}, {}]] \<and> dims 2 (init_table 2) \<and> dims 2 (init_back 2)
   \<and> [[{}, {}], [{js ''X''}, {}]] ! 0 ! 0 = init_table 2 ! 0 ! 0
   \<and> [[{}, {}], [{js ''X''}, {}]] ! 0 ! 1 = init_table 2 ! 0 ! 1
   \<and> [[{}, {}], [{js ''X''}, {}]] ! 1 ! 1 = init_table 2 ! 1 ! 1
   \<and> (\<exists>t1 b1 t2 b2.
         cyk_fill exampleGrammar [js ''a'', js ''b''] ([[{}, {}], [{js ''X''}, {}]], init_back 2)
           = Inr (t1, b1)
       \<and> cyk_fill exampleGrammar [js ''a'', js ''b''] (init_table 2, init_back 2) = Inr (t2, b2)
       \<and> t1 ! 1 ! 0 = {js ''X''} \<and> t1 ! 0 ! 1 = t2 ! 0 ! 1 \<and> t1 ! 0 ! 0 = t2 ! 0 ! 0
       \<and> t1 ! 1 ! 1 = t2 ! 1 ! 1
       \<and> has_start exampleGrammar 2 t1 = has_start exampleGrammar 2 t2)"
proof -
  define t :: table where "t = [[{}, {}], [{js ''X''}, {}]]"
  define w where "w = [js ''a'', js ''b'']"
  have n: "length w = 2" by (simp add: w_def)
  have d: "dims 2 t" "dims 2 (init_table 2)" "dims 2 (init_back 2)"
    by (simp_all add: t_def dims_def init_table_def init_back_def numeral_2_eq_2)
  have c: "t ! 0 ! 0 = init_table 2 ! 0 ! 0" "t ! 0 ! 1 = init_table 2 ! 0 ! 1"
    "t ! 1 ! 1 = init_table 2 ! 1 ! 1" "t ! 1 ! 0 = {js ''X''}"
    by (simp_all add: t_def init_table_def numeral_2_eq_2)
  have e: "\<forall>i j. i \<le> j \<longrightarrow> j < length w \<longrightarrow> t ! i ! j = init_table 2 ! i ! j"
  proof (intro allI impI)
    fix i j :: nat assume "i \<le> j" "j < length w"
    with n consider "i = 0 \<and> j = 0" | "i = 0 \<and> j = 1" | "i = 1 \<and> j = 1"
      by (cases i; cases j) auto
    then show "t ! i ! j = init_table 2 ! i ! j"
      using c by cases simp_all
  qed
  from d have d': "dims (length w) t" "dims (length w) (init_table 2)" "dims (length w) (init_back 2)"
    by (simp_all only: n)
  from lower_triangle_untouched [OF d' e, of exampleGrammar "[]"]
  obtain t1 b1 t2 b2 u1 s1 u2 s2 where H:
     "cyk_fill exampleGrammar w (t, init_back 2) = Inr (t1, b1)
      \<and> cyk_fill exampleGrammar w (init_table 2, init_back 2) = Inr (t2, b2)
      \<and> trace_fill exampleGrammar w (t, []) = Inr (u1, s1)
      \<and> trace_fill exampleGrammar w (init_table 2, []) = Inr (u2, s2)
      \<and> (\<forall>i j. j < i \<longrightarrow> i < length w \<longrightarrow> t1 ! i ! j = t ! i ! j \<and> u1 ! i ! j = t ! i ! j)
      \<and> (\<forall>i j. i \<le> j \<longrightarrow> j < length w \<longrightarrow> t1 ! i ! j = t2 ! i ! j \<and> u1 ! i ! j = u2 ! i ! j)
      \<and> has_start exampleGrammar (length w) t1 = has_start exampleGrammar (length w) t2
      \<and> has_start exampleGrammar (length w) u1 = has_start exampleGrammar (length w) u2
      \<and> (\<forall>r. cykWithPointers w exampleGrammar = Inr r \<longrightarrow>
            (\<forall>i j. j < i \<longrightarrow> i < length w \<longrightarrow> cyk_result.table r ! i ! j = {}))
      \<and> (\<forall>r. cykAlgorithm w exampleGrammar = Inr r \<longrightarrow>
            (\<forall>i j. j < i \<longrightarrow> i < length w \<longrightarrow> table r ! i ! j = {}))"
    by (elim exE) (rule that)
  note c2 = conjunct2
  note r = H [THEN conjunct1] H [THEN c2, THEN conjunct1]
  note fr = H [THEN c2, THEN c2, THEN c2, THEN c2, THEN conjunct1, rule_format]
  note ind = H [THEN c2, THEN c2, THEN c2, THEN c2, THEN c2, THEN conjunct1, rule_format]
  note hs = H [THEN c2, THEN c2, THEN c2, THEN c2, THEN c2, THEN c2, THEN conjunct1]
  have lt: "(0::nat) < 1" "(1::nat) < length w" "(0::nat) \<le> 1" "(0::nat) \<le> 0" "(1::nat) \<le> 1"
    "(0::nat) < length w"
    by (simp_all add: n)
  from fr [OF lt(1,2), THEN conjunct1] c(4) have f1: "t1 ! 1 ! 0 = {js ''X''}" by (simp only:)
  note f2 = ind [OF lt(3,2), THEN conjunct1] ind [OF lt(4,6), THEN conjunct1]
    ind [OF lt(5,2), THEN conjunct1]
  from hs have f3: "has_start exampleGrammar 2 t1 = has_start exampleGrammar 2 t2"
    by (simp only: n)
  from r f1 f2 f3 have "\<exists>t1 b1 t2 b2.
         cyk_fill exampleGrammar w (t, init_back 2) = Inr (t1, b1)
       \<and> cyk_fill exampleGrammar w (init_table 2, init_back 2) = Inr (t2, b2)
       \<and> t1 ! 1 ! 0 = {js ''X''} \<and> t1 ! 0 ! 1 = t2 ! 0 ! 1 \<and> t1 ! 0 ! 0 = t2 ! 0 ! 0
       \<and> t1 ! 1 ! 1 = t2 ! 1 ! 1
       \<and> has_start exampleGrammar 2 t1 = has_start exampleGrammar 2 t2"
    by (intro exI conjI)
  with d c(1-3) show ?thesis
    unfolding t_def w_def by (intro conjI)
qed
section \<open>Recognition raises no error\<close>

text \<open>
  Claim C8. Both recognizers return for every grammar and every token sequence: no read
  of the table or of the backpointers is out of range. For the empty sequence they return
  \<open>accepted = false\<close> with an empty table and empty backpointers or steps. A grammar in
  which no variable has a production, the empty grammar among them, is rejected on every
  input; and a text in which no line has an arrow compiles, without an error, to the
  empty grammar with the start symbol \<open>S\<close>.
\<close>

theorem recognition_never_raises:
  "(\<exists>r. cykWithPointers w G = Inr r) \<and> (\<exists>r. cykAlgorithm w G = Inr r)
   \<and> cykWithPointers [] G = Inr \<lparr>cyk_result.accepted = False, table = [], backptrs = []\<rparr>
   \<and> cykAlgorithm [] G = Inr \<lparr>accepted = False, table = [], steps = []\<rparr>
   \<and> (list_all (\<lambda>A. obj_get (rules G) A = []) (object_keys (rules G)) \<longrightarrow>
        (\<exists>r. cykWithPointers w G = Inr r \<and> \<not> cyk_result.accepted r)
        \<and> (\<exists>r. cykAlgorithm w G = Inr r \<and> \<not> accepted r))
   \<and> (list_all (\<lambda>l. arrow_split l = None) (grammar_lines text) \<longrightarrow>
        parseGrammarFromText text
          = Inr \<lparr>variables = [], terminals = [], startSymbol = js ''S'', rules = []\<rparr>)"
proof -
  have e: "cykWithPointers [] G = Inr \<lparr>cyk_result.accepted = False, table = [], backptrs = []\<rparr>"
    "cykAlgorithm [] G = Inr \<lparr>accepted = False, table = [], steps = []\<rparr>"
    by (simp_all add: cykWithPointers_def cykAlgorithm_def)
  have t: "(\<exists>r. cykWithPointers w G = Inr r) \<and> (\<exists>r. cykAlgorithm w G = Inr r)"
  proof (cases "w = []")
    case True
    with e show ?thesis by simp
  next
    case False
    from cykWithPointers_derives [OF False, of G] cykAlgorithm_derives [OF False, of G]
    show ?thesis by blast
  qed
  have n: "(\<exists>r. cykWithPointers w G = Inr r \<and> \<not> cyk_result.accepted r)
        \<and> (\<exists>r. cykAlgorithm w G = Inr r \<and> \<not> accepted r)"
    if "list_all (\<lambda>A. obj_get (rules G) A = []) (object_keys (rules G))"
  proof (cases "w = []")
    case True
    with e show ?thesis by simp
  next
    case False
    from cykWithPointers_derives [OF False, of G] cykAlgorithm_derives [OF False, of G]
      no_production_no_derivation [OF that, of "startSymbol G" w]
    show ?thesis by blast
  qed
  from e t n parse_without_arrows [of "text"] show ?thesis by blast
qed


theorem recognition_never_raises_witness:
  "list_all (\<lambda>A. obj_get [] A = ([] :: production list)) (object_keys ([] :: (symbol \<times> production list) list))
   \<and> list_all (\<lambda>l. arrow_split l = None) (grammar_lines (js ''S AB''))
   \<and> parseGrammarFromText (js ''S AB'')
       = Inr \<lparr>variables = [], terminals = [], startSymbol = js ''S'', rules = []\<rparr>
   \<and> map_sum id cyk_result.accepted
        (cykWithPointers [js ''a'', js ''b'']
           \<lparr>variables = [], terminals = [], startSymbol = js ''S'', rules = []\<rparr>) = Inr False
   \<and> map_sum id accepted
        (cykAlgorithm [js ''a'', js ''b'']
           \<lparr>variables = [], terminals = [], startSymbol = js ''S'', rules = []\<rparr>) = Inr False"
proof -
  let ?G = "\<lparr>variables = [], terminals = [], startSymbol = js ''S'', rules = []\<rparr>"
  have h1: "list_all (\<lambda>A. obj_get (rules ?G) A = []) (object_keys (rules ?G))"
    by (simp add: object_keys_def)
  have h2: "list_all (\<lambda>l. arrow_split l = None) (grammar_lines (js ''S AB''))"
    by (simp add: eval_parse eval_str)
  note t = recognition_never_raises [of "[js ''a'', js ''b'']" ?G "js ''S AB''"]
  note p = t [THEN conjunct2, THEN conjunct2, THEN conjunct2, THEN conjunct2, THEN conjunct2,
    THEN mp, OF h2]
  note n = t [THEN conjunct2, THEN conjunct2, THEN conjunct2, THEN conjunct2, THEN conjunct1,
    THEN mp, OF h1]
  from n have "map_sum id cyk_result.accepted (cykWithPointers [js ''a'', js ''b''] ?G) = Inr False"
    "map_sum id accepted (cykAlgorithm [js ''a'', js ''b''] ?G) = Inr False"
    by auto
  with h1 h2 p show ?thesis by simp
qed
section \<open>Scenario D\<close>

lemma default_grammar_compiles: "parseGrammarFromText pgcGrammarText = Inr pgcGrammar"
  by (simp add: eval_parse eval_str pgcGrammarText_def pgcGrammar_def Let_def)

lemma default_sentence_tokens:
  "pgc_tokens pgcSentence = [js ''the'', js ''cat'', js ''chased'', js ''a'', js ''dog'']"
  by (simp add: pgc_tokens_def pgcSentence_def eval_str)

lemma default_sentence_run:
  "(case cykWithPointers [js ''the'', js ''cat'', js ''chased'', js ''a'', js ''dog''] pgcGrammar of
      Inl e \<Rightarrow> None
    | Inr r \<Rightarrow>
        if cyk_result.accepted r
        then buildParseTree pgcGrammar [js ''the'', js ''cat'', js ''chased'', js ''a'', js ''dog'']
               (backptrs r)
        else None)
   = Some (Inr (Some (NodeLR (js ''S'')
        (NodeLR (js ''NP'') (NodeChild (js ''Det'') (js ''the'')) (NodeChild (js ''N'') (js ''cat'')))
        (NodeLR (js ''VP'') (NodeChild (js ''V'') (js ''chased''))
           (NodeLR (js ''NP'') (NodeChild (js ''Det'') (js ''a''))
              (NodeChild (js ''N'') (js ''dog'')))))))"
  by (simp add: pgcGrammar_def eval_keys eval_cyk buildParseTree_def choose_rec.simps)

text \<open>
  Claim C9. The default grammar text of the sentence tab compiles to the grammar with the
  rules \<open>S -> NP VP\<close>, \<open>NP -> Det N\<close>, \<open>VP -> V NP\<close>, \<open>Det -> the | a\<close>, \<open>N -> cat | dog\<close>,
  \<open>V -> chased\<close>; the sentence "the cat chased a dog" splits into its five words; the
  recognizer accepts them, and the tree built from its backpointers has the root \<open>S\<close>
  with the children \<open>NP\<close> and \<open>VP\<close>, where \<open>VP\<close> splits into \<open>V\<close> and a nested \<open>NP\<close>.
\<close>

theorem scenario_D:
  "parseGrammarFromText pgcGrammarText = Inr pgcGrammar
   \<and> (\<exists>r. cykWithPointers (pgc_tokens pgcSentence) pgcGrammar = Inr r
         \<and> cyk_result.accepted r
         \<and> buildParseTree pgcGrammar (pgc_tokens pgcSentence) (backptrs r)
            = Some (Inr (Some (NodeLR (js ''S'')
                (NodeLR (js ''NP'') (NodeChild (js ''Det'') (js ''the''))
                   (NodeChild (js ''N'') (js ''cat'')))
                (NodeLR (js ''VP'') (NodeChild (js ''V'') (js ''chased''))
                   (NodeLR (js ''NP'') (NodeChild (js ''Det'') (js ''a''))
                      (NodeChild (js ''N'') (js ''dog''))))))))"
proof -
  let ?w = "[js ''the'', js ''cat'', js ''chased'', js ''a'', js ''dog'']"
  obtain r where r: "cykWithPointers ?w pgcGrammar = Inr r"
    using default_sentence_run by (cases "cykWithPointers ?w pgcGrammar") simp_all
  with default_sentence_run have "cyk_result.accepted r"
    by (cases "cyk_result.accepted r") simp_all
  with r default_sentence_run default_grammar_compiles show ?thesis
    by (simp add: default_sentence_tokens)
qed
section \<open>The tree of an accepted input\<close>

text \<open>
  Claim C10. When \<open>cykWithPointers\<close> accepts a token sequence, \<open>buildParseTree\<close> returns
  a tree, not \<^verbatim>\<open>null\<close>: the recursion ends, no node is the bare fallback node, the root
  is labelled with the start symbol, and the terminal leaves read from left to right are
  the token sequence.
\<close>

theorem accepted_tree_spells_input:
  assumes "cykWithPointers w G = Inr r" "cyk_result.accepted r"
  shows "\<exists>T. buildParseTree G w (backptrs r) = Some (Inr (Some T)) \<and> no_bare T
           \<and> label T = startSymbol G \<and> leaves T = w"
  using buildParseTree_result [OF assms(1)] assms(2) by blast


theorem accepted_tree_spells_input_witness:
  "\<exists>r. cykWithPointers [js ''a'', js ''b''] exampleGrammar = Inr r \<and> cyk_result.accepted r
      \<and> buildParseTree exampleGrammar [js ''a'', js ''b''] (backptrs r)
         = Some (Inr (Some (NodeLR (js ''S'') (NodeChild (js ''A'') (js ''a''))
                              (NodeChild (js ''B'') (js ''b'')))))
      \<and> no_bare (NodeLR (js ''S'') (NodeChild (js ''A'') (js ''a'')) (NodeChild (js ''B'') (js ''b'')))
      \<and> leaves (NodeLR (js ''S'') (NodeChild (js ''A'') (js ''a'')) (NodeChild (js ''B'') (js ''b'')))
         = [js ''a'', js ''b'']"
proof -
  let ?w = "[js ''a'', js ''b'']"
  let ?T = "NodeLR (js ''S'') (NodeChild (js ''A'') (js ''a'')) (NodeChild (js ''B'') (js ''b''))"
  obtain r where r: "cykWithPointers ?w exampleGrammar = Inr r"
    using example_run by (cases "cykWithPointers ?w exampleGrammar") simp_all
  with example_run have acc: "cyk_result.accepted r"
    by (cases "cyk_result.accepted r") simp_all
  with r example_run have b: "buildParseTree exampleGrammar ?w (backptrs r) = Some (Inr (Some ?T))"
    by simp
  from accepted_tree_spells_input [OF r acc] obtain T where
    "buildParseTree exampleGrammar ?w (backptrs r) = Some (Inr (Some T))" "no_bare T" "leaves T = ?w"
    by blast
  with b have "no_bare ?T" "leaves ?T = ?w" by simp_all
  with r acc b show ?thesis by blast
qed


end
